theory Spec2Isabelle
  imports Complex_Main "HOL-Library.AList" "HOL-Library.Sublist"
begin

section \<open>Data model\<close>

text \<open>
  \<^verbatim>\<open>SKOSConcept\<close> (extraction/skos_extractor.py) is a dataclass; every field is kept.
  The fields \<^verbatim>\<open>definition\<close> and \<^verbatim>\<open>notation\<close> are reserved words of the theory language and
  carry the prefix \<^verbatim>\<open>skos_\<close>. \<^verbatim>\<open>file_path\<close> is a \<^verbatim>\<open>Path\<close> in the source and is only ever
  read through \<^verbatim>\<open>str\<close>, so it is a string here.
\<close>

record concept =
  concept_id :: string
  uri :: string
  pref_label :: string
  alt_labels :: "string list"
  skos_definition :: "string option"
  skos_notation :: "string option"
  in_scheme :: "string option"
  broader :: "string list"
  narrower :: "string list"
  related :: "string list"
  schema_type :: "string option"
  about :: "string list"
  teaches :: "string list"
  educational_level :: "string option"
  learning_resource_type :: "string option"
  course :: "string list"
  lecture_week :: "int option"
  prerequisite :: "string list"
  file_path :: string
  content :: string

text \<open>
  \<^verbatim>\<open>SKOSConcept.to_dict\<close> copies every field into a dictionary with a fixed set of fourteen
  keys (\<^verbatim>\<open>pref_label\<close> under \<^verbatim>\<open>prefLabel\<close>, \<^verbatim>\<open>alt_labels\<close> under \<^verbatim>\<open>altLabel\<close>, the schema and
  academic fields under two nested dictionaries). The attribute dictionary of a node is
  therefore either empty (a node that \<^verbatim>\<open>add_edge\<close> created on its own) or the image of one
  concept: \<open>None\<close> is the empty dictionary, \<open>Some c\<close> the dictionary \<^verbatim>\<open>c.to_dict()\<close>.
\<close>

type_synonym node_data = "concept option"

definition to_dict :: "concept \<Rightarrow> node_data" where
  "to_dict c = Some c"

text \<open>
  \<^verbatim>\<open>networkx.DiGraph\<close>: \<^verbatim>\<open>_node\<close> is an insertion-ordered dictionary from node to attribute
  dictionary; \<^verbatim>\<open>_succ[u][v]\<close> is the attribute dictionary of the single edge from u to v.
  Both are association lists here, read with \<open>map_of\<close> and written with \<open>AList.update\<close>
  (replace in place when the key is present, append otherwise: the behaviour of a Python
  dictionary). The nested dictionary \<^verbatim>\<open>_succ\<close> is flattened to one list keyed by the
  ordered pair; the successors of one source keep their insertion order in it. The only
  edge attribute the program writes is \<^verbatim>\<open>relation_type\<close>, a string.
\<close>

record digraph =
  node_tbl :: "(string \<times> node_data) list"
  edge_tbl :: "((string \<times> string) \<times> string) list"

definition node_ids :: "digraph \<Rightarrow> string list" where
  "node_ids g = map fst (node_tbl g)"

definition empty_graph :: digraph where
  "empty_graph = \<lparr>node_tbl = [], edge_tbl = []\<rparr>"

definition has_node :: "digraph \<Rightarrow> string \<Rightarrow> bool" where
  "has_node g n = (n \<in> set (map fst (node_tbl g)))"

definition has_edge :: "digraph \<Rightarrow> string \<Rightarrow> string \<Rightarrow> bool" where
  "has_edge g u v = (map_of (edge_tbl g) (u, v) \<noteq> None)"

definition edge_rel :: "digraph \<Rightarrow> string \<Rightarrow> string \<Rightarrow> string option" where
  "edge_rel g u v = map_of (edge_tbl g) (u, v)"

definition number_of_nodes :: "digraph \<Rightarrow> nat" where
  "number_of_nodes g = length (node_tbl g)"

definition number_of_edges :: "digraph \<Rightarrow> nat" where
  "number_of_edges g = length (edge_tbl g)"

text \<open>
  \<^verbatim>\<open>add_node(n, **attr)\<close> with the full dictionary of a concept: a new node is appended, an
  existing one has every key overwritten and keeps its position.
\<close>

definition add_node :: "digraph \<Rightarrow> string \<Rightarrow> node_data \<Rightarrow> digraph" where
  "add_node g n d = g\<lparr>node_tbl := AList.update n d (node_tbl g)\<rparr>"

text \<open>
  \<^verbatim>\<open>add_edge(u, v, relation_type=r)\<close>: an endpoint that is not a node yet is created with an
  empty attribute dictionary; the edge is created, or its \<^verbatim>\<open>relation_type\<close> overwritten.
\<close>

definition ensure_node :: "digraph \<Rightarrow> string \<Rightarrow> digraph" where
  "ensure_node g n = (if has_node g n then g else g\<lparr>node_tbl := node_tbl g @ [(n, None)]\<rparr>)"

definition add_edge :: "digraph \<Rightarrow> string \<Rightarrow> string \<Rightarrow> string \<Rightarrow> digraph" where
  "add_edge g u v r =
     (let g1 = ensure_node g u;
          g2 = ensure_node g1 v
      in g2\<lparr>edge_tbl := AList.update (u, v) r (edge_tbl g2)\<rparr>)"

definition in_edges :: "digraph \<Rightarrow> string \<Rightarrow> (string \<times> string) list" where
  "in_edges g n = filter (\<lambda>e. snd e = n) (map fst (edge_tbl g))"

definition out_edges :: "digraph \<Rightarrow> string \<Rightarrow> (string \<times> string) list" where
  "out_edges g n = filter (\<lambda>e. fst e = n) (map fst (edge_tbl g))"

text \<open>\<^verbatim>\<open>remove_edges_from\<close> skips an edge that is not (or no longer) in the graph.\<close>

definition remove_edges_from :: "digraph \<Rightarrow> (string \<times> string) list \<Rightarrow> digraph" where
  "remove_edges_from g es = g\<lparr>edge_tbl := fold AList.delete es (edge_tbl g)\<rparr>"

definition remove_node :: "digraph \<Rightarrow> string \<Rightarrow> digraph" where
  "remove_node g n =
     \<lparr>node_tbl = AList.delete n (node_tbl g),
      edge_tbl = filter (\<lambda>e. fst (fst e) \<noteq> n \<and> snd (fst e) \<noteq> n) (edge_tbl g)\<rparr>"

text \<open>
  \<^verbatim>\<open>G.edges(data=True)\<close> walks the nodes in node order and, for each, its successors in
  insertion order.
\<close>

definition edges :: "digraph \<Rightarrow> ((string \<times> string) \<times> string) list" where
  "edges g = concat (map (\<lambda>u. filter (\<lambda>e. fst (fst e) = u) (edge_tbl g)) (node_ids g))"

section \<open>Graph builder (graph/builder.py)\<close>

definition add_concept_node :: "digraph \<Rightarrow> concept \<Rightarrow> digraph" where
  "add_concept_node g c = add_node g (concept_id c) (to_dict c)"

definition add_broader :: "string \<Rightarrow> string \<Rightarrow> digraph \<Rightarrow> digraph" where
  "add_broader cid broader_id g =
     (if has_node g broader_id
      then add_edge (add_edge g cid broader_id ''broader'') broader_id cid ''narrower''
      else g)"

definition add_narrower :: "string \<Rightarrow> string \<Rightarrow> digraph \<Rightarrow> digraph" where
  "add_narrower cid narrower_id g =
     (if has_node g narrower_id
      then (let g1 = (if \<not> has_edge g cid narrower_id
                      then add_edge g cid narrower_id ''narrower'' else g)
            in if \<not> has_edge g1 narrower_id cid
               then add_edge g1 narrower_id cid ''broader'' else g1)
      else g)"

definition add_related :: "string \<Rightarrow> string \<Rightarrow> digraph \<Rightarrow> digraph" where
  "add_related cid related_id g =
     (if has_node g related_id
      then add_edge (add_edge g cid related_id ''related'') related_id cid ''related''
      else g)"

definition add_prerequisite :: "string \<Rightarrow> string \<Rightarrow> digraph \<Rightarrow> digraph" where
  "add_prerequisite cid prereq_id g =
     (if has_node g prereq_id then add_edge g cid prereq_id ''prerequisite'' else g)"

text \<open>The four loops of \<^verbatim>\<open>_add_concept_relations\<close>, in the order of the source.\<close>

definition add_concept_relations :: "digraph \<Rightarrow> concept \<Rightarrow> digraph" where
  "add_concept_relations g c =
     (let g1 = fold (add_broader (concept_id c)) (broader c) g;
          g2 = fold (add_narrower (concept_id c)) (narrower c) g1;
          g3 = fold (add_related (concept_id c)) (related c) g2
      in fold (add_prerequisite (concept_id c)) (prerequisite c) g3)"

text \<open>
  \<^verbatim>\<open>build_graph\<close> works on the builder's own graph, which is empty after \<^verbatim>\<open>__init__\<close>;
  \<open>build_graph_from\<close> is the method on any current graph.
\<close>

definition build_graph_from :: "digraph \<Rightarrow> concept list \<Rightarrow> digraph" where
  "build_graph_from g concepts =
     fold (\<lambda>c g'. add_concept_relations g' c) concepts
       (fold (\<lambda>c g'. add_concept_node g' c) concepts g)"

definition build_graph :: "concept list \<Rightarrow> digraph" where
  "build_graph concepts = build_graph_from empty_graph concepts"

definition update_concept :: "digraph \<Rightarrow> concept \<Rightarrow> digraph" where
  "update_concept g c =
     (let g1 = (if has_node g (concept_id c)
                then remove_edges_from g (in_edges g (concept_id c) @ out_edges g (concept_id c))
                else g);
          g2 = add_concept_node g1 c
      in add_concept_relations g2 c)"

definition remove_concept :: "digraph \<Rightarrow> string \<Rightarrow> digraph" where
  "remove_concept g cid = (if has_node g cid then remove_node g cid else g)"

text \<open>\<^verbatim>\<open>get_concept\<close> of the builder and of the query engine: a copy of the node's dictionary.\<close>

definition get_concept :: "digraph \<Rightarrow> string \<Rightarrow> node_data option" where
  "get_concept g cid = (if has_node g cid then map_of (node_tbl g) cid else None)"

section \<open>Basic facts about the graph operations\<close>

lemma has_node_ensure_node: "has_node (ensure_node g n) m = (has_node g m \<or> m = n)"
  by (auto simp: ensure_node_def has_node_def)

lemma edge_tbl_ensure_node: "edge_tbl (ensure_node g n) = edge_tbl g"
  by (simp add: ensure_node_def)

lemma has_node_add_edge: "has_node (add_edge g u v r) m = (has_node g m \<or> m = u \<or> m = v)"
  by (auto simp: add_edge_def Let_def has_node_def ensure_node_def)

lemma edge_rel_add_edge:
  "edge_rel (add_edge g u v r) x y = (if x = u \<and> y = v then Some r else edge_rel g x y)"
  by (simp add: add_edge_def Let_def edge_rel_def edge_tbl_ensure_node AList.update_conv')

lemma has_edge_edge_rel: "has_edge g u v = (edge_rel g u v \<noteq> None)"
  by (simp add: has_edge_def edge_rel_def)

lemma fold_invariant:
  "P g \<Longrightarrow> (\<And>x h. x \<in> set xs \<Longrightarrow> P h \<Longrightarrow> P (f x h)) \<Longrightarrow> P (fold f xs g)"
  by (induction xs arbitrary: g) auto

lemma has_node_add_node: "has_node (add_node g n d) m = (has_node g m \<or> m = n)"
  by (auto simp: add_node_def has_node_def AList.dom_update)

lemma edge_tbl_add_node: "edge_tbl (add_node g n d) = edge_tbl g"
  by (simp add: add_node_def)

lemma node_tbl_ensure_node: "has_node g n \<Longrightarrow> ensure_node g n = g"
  by (simp add: ensure_node_def)

lemma node_tbl_add_edge:
  "has_node g u \<Longrightarrow> has_node g v \<Longrightarrow> node_tbl (add_edge g u v r) = node_tbl g"
  by (simp add: add_edge_def Let_def node_tbl_ensure_node)

lemma has_node_add_broader:
  "has_node g cid \<Longrightarrow> has_node (add_broader cid x g) m = has_node g m"
  by (auto simp: add_broader_def has_node_add_edge)

lemma has_node_add_narrower:
  "has_node g cid \<Longrightarrow> has_node (add_narrower cid x g) m = has_node g m"
  by (auto simp: add_narrower_def Let_def has_node_add_edge)

lemma has_node_add_related:
  "has_node g cid \<Longrightarrow> has_node (add_related cid x g) m = has_node g m"
  by (auto simp: add_related_def has_node_add_edge)

lemma has_node_add_prerequisite:
  "has_node g cid \<Longrightarrow> has_node (add_prerequisite cid x g) m = has_node g m"
  by (auto simp: add_prerequisite_def has_node_add_edge)

lemma node_tbl_add_broader:
  "has_node g cid \<Longrightarrow> node_tbl (add_broader cid x g) = node_tbl g"
  by (simp add: add_broader_def node_tbl_add_edge has_node_add_edge)

lemma node_tbl_add_narrower:
  "has_node g cid \<Longrightarrow> node_tbl (add_narrower cid x g) = node_tbl g"
  by (simp add: add_narrower_def Let_def node_tbl_add_edge has_node_add_edge)

lemma node_tbl_add_related:
  "has_node g cid \<Longrightarrow> node_tbl (add_related cid x g) = node_tbl g"
  by (simp add: add_related_def node_tbl_add_edge has_node_add_edge)

lemma node_tbl_add_prerequisite:
  "has_node g cid \<Longrightarrow> node_tbl (add_prerequisite cid x g) = node_tbl g"
  by (simp add: add_prerequisite_def node_tbl_add_edge)

lemma has_node_node_tbl: "node_tbl g = node_tbl h \<Longrightarrow> has_node g = has_node h"
  by (auto simp: has_node_def fun_eq_iff)

lemma node_tbl_fold:
  assumes "\<And>x h. has_node h cid \<Longrightarrow> node_tbl (f x h) = node_tbl h"
  shows "has_node g cid \<Longrightarrow> node_tbl (fold f xs g) = node_tbl g"
proof (induction xs arbitrary: g)
  case Nil
  then show ?case by simp
next
  case (Cons x xs)
  have eq: "node_tbl (f x g) = node_tbl g" using assms Cons.prems by simp
  then have "has_node (f x g) cid" using Cons.prems by (simp add: has_node_def)
  then show ?case using Cons.IH eq by simp
qed

lemma node_tbl_add_concept_relations:
  assumes "has_node g (concept_id c)"
  shows "node_tbl (add_concept_relations g c) = node_tbl g"
proof -
  let ?i = "concept_id c"
  let ?g1 = "fold (add_broader ?i) (broader c) g"
  let ?g2 = "fold (add_narrower ?i) (narrower c) ?g1"
  let ?g3 = "fold (add_related ?i) (related c) ?g2"
  have 1: "node_tbl ?g1 = node_tbl g"
    using assms by (rule node_tbl_fold[rotated]) (rule node_tbl_add_broader)
  then have h1: "has_node ?g1 ?i" using assms by (simp add: has_node_def)
  have 2: "node_tbl ?g2 = node_tbl ?g1"
    using h1 by (rule node_tbl_fold[rotated]) (rule node_tbl_add_narrower)
  then have h2: "has_node ?g2 ?i" using h1 by (simp add: has_node_def)
  have 3: "node_tbl ?g3 = node_tbl ?g2"
    using h2 by (rule node_tbl_fold[rotated]) (rule node_tbl_add_related)
  then have h3: "has_node ?g3 ?i" using h2 by (simp add: has_node_def)
  have 4: "node_tbl (fold (add_prerequisite ?i) (prerequisite c) ?g3) = node_tbl ?g3"
    using h3 by (rule node_tbl_fold[rotated]) (rule node_tbl_add_prerequisite)
  show ?thesis using 1 2 3 4 by (simp add: add_concept_relations_def Let_def)
qed

section \<open>The invariant of the graph data structure\<close>

text \<open>
  What \<^verbatim>\<open>networkx.DiGraph\<close> guarantees by construction and the association lists do not:
  node keys are unique, there is at most one edge per ordered pair, and both endpoints of
  an edge are nodes. Every builder operation keeps it.
\<close>

definition edges_closed :: "digraph \<Rightarrow> bool" where
  "edges_closed g =
     list_all (\<lambda>e. has_node g (fst (fst e)) \<and> has_node g (snd (fst e))) (edge_tbl g)"

definition wf_graph :: "digraph \<Rightarrow> bool" where
  "wf_graph g =
     (distinct (map fst (node_tbl g)) \<and> distinct (map fst (edge_tbl g)) \<and> edges_closed g)"

lemma edge_rel_None_iff: "(edge_rel g u v = None) = ((u, v) \<notin> fst ` set (edge_tbl g))"
  by (simp add: edge_rel_def map_of_eq_None_iff)

lemma edges_closed_iff:
  "edges_closed g = (\<forall>u v. edge_rel g u v \<noteq> None \<longrightarrow> has_node g u \<and> has_node g v)"
  by (force simp: edges_closed_def list_all_iff edge_rel_None_iff)

lemma wf_empty_graph: "wf_graph empty_graph"
  by (simp add: wf_graph_def empty_graph_def edges_closed_def)

lemma distinct_nodes_ensure_node:
  "distinct (map fst (node_tbl g)) \<Longrightarrow> distinct (map fst (node_tbl (ensure_node g n)))"
  by (auto simp: ensure_node_def has_node_def)

lemma wf_add_node: "wf_graph g \<Longrightarrow> wf_graph (add_node g n d)"
  unfolding wf_graph_def edges_closed_iff
  by (auto simp: has_node_add_node AList.distinct_update)
     (auto simp: add_node_def edge_rel_def AList.distinct_update)

lemma wf_add_edge: "wf_graph g \<Longrightarrow> wf_graph (add_edge g u v r)"
  unfolding wf_graph_def edges_closed_iff
  by (auto simp: has_node_add_edge edge_rel_add_edge split: if_splits)
     (auto simp: add_edge_def Let_def edge_tbl_ensure_node AList.distinct_update
        distinct_nodes_ensure_node)

lemma wf_add_broader: "wf_graph g \<Longrightarrow> wf_graph (add_broader cid x g)"
  by (simp add: add_broader_def wf_add_edge)

lemma wf_add_narrower: "wf_graph g \<Longrightarrow> wf_graph (add_narrower cid x g)"
  by (simp add: add_narrower_def Let_def wf_add_edge)

lemma wf_add_related: "wf_graph g \<Longrightarrow> wf_graph (add_related cid x g)"
  by (simp add: add_related_def wf_add_edge)

lemma wf_add_prerequisite: "wf_graph g \<Longrightarrow> wf_graph (add_prerequisite cid x g)"
  by (simp add: add_prerequisite_def wf_add_edge)

lemma wf_add_concept_relations: "wf_graph g \<Longrightarrow> wf_graph (add_concept_relations g c)"
  unfolding add_concept_relations_def Let_def
  by (intro fold_invariant[where P = wf_graph] wf_add_broader wf_add_narrower
      wf_add_related wf_add_prerequisite)

lemma wf_add_concept_node: "wf_graph g \<Longrightarrow> wf_graph (add_concept_node g c)"
  by (simp add: add_concept_node_def wf_add_node)

lemma wf_build_graph_from: "wf_graph g \<Longrightarrow> wf_graph (build_graph_from g cs)"
  unfolding build_graph_from_def
  by (intro fold_invariant[where P = wf_graph] wf_add_concept_relations wf_add_concept_node)

lemma wf_build_graph: "wf_graph (build_graph cs)"
  by (simp add: build_graph_def wf_build_graph_from wf_empty_graph)

lemma distinct_fold_delete:
  "distinct (map fst al) \<Longrightarrow> distinct (map fst (fold AList.delete ks al))"
  by (induction ks arbitrary: al) (auto simp: AList.distinct_delete)

lemma map_of_fold_delete:
  "map_of (fold AList.delete ks al) k = (if k \<in> set ks then None else map_of al k)"
  by (induction ks arbitrary: al) (auto simp: AList.delete_conv')

lemma edge_rel_remove_edges_from:
  "edge_rel (remove_edges_from g es) u v = (if (u, v) \<in> set es then None else edge_rel g u v)"
  by (simp add: remove_edges_from_def edge_rel_def map_of_fold_delete)

lemma has_node_remove_edges_from: "has_node (remove_edges_from g es) = has_node g"
  by (simp add: remove_edges_from_def has_node_def fun_eq_iff)

lemma wf_remove_edges_from: "wf_graph g \<Longrightarrow> wf_graph (remove_edges_from g es)"
  unfolding wf_graph_def edges_closed_iff
  by (auto simp: edge_rel_remove_edges_from has_node_remove_edges_from split: if_splits)
     (auto simp: remove_edges_from_def distinct_fold_delete)

lemma wf_update_concept: "wf_graph g \<Longrightarrow> wf_graph (update_concept g c)"
  by (simp add: update_concept_def Let_def wf_add_concept_relations wf_add_concept_node
      wf_remove_edges_from)

lemma wf_remove_node: "wf_graph g \<Longrightarrow> wf_graph (remove_node g n)"
  unfolding wf_graph_def edges_closed_def
  by (auto simp: remove_node_def has_node_def AList.delete_keys
      distinct_map_filter list_all_iff distinct_removeAll)

lemma wf_remove_concept: "wf_graph g \<Longrightarrow> wf_graph (remove_concept g cid)"
  by (simp add: remove_concept_def wf_remove_node)

section \<open>Dangling references\<close>

text \<open>
  \<open>mk_concept\<close> is the dataclass constructor called with its three required fields; every
  other field takes the default of the dataclass.
\<close>

definition mk_concept :: "string \<Rightarrow> string \<Rightarrow> string \<Rightarrow> concept" where
  "mk_concept cid u lbl =
     \<lparr>concept_id = cid, uri = u, pref_label = lbl, alt_labels = [],
      skos_definition = None, skos_notation = None, in_scheme = None,
      broader = [], narrower = [], related = [],
      schema_type = None, about = [], teaches = [], educational_level = None,
      learning_resource_type = None, course = [], lecture_week = None,
      prerequisite = [], file_path = ''.'', content = []\<rparr>"

lemma has_node_fold_add_concept_node:
  "has_node (fold (\<lambda>c g'. add_concept_node g' c) cs g) n =
     (has_node g n \<or> n \<in> concept_id ` set cs)"
  by (induction cs arbitrary: g) (auto simp: add_concept_node_def has_node_add_node)

lemma node_tbl_fold_add_concept_relations:
  "(\<And>c. c \<in> set cs \<Longrightarrow> has_node g (concept_id c)) \<Longrightarrow>
     node_tbl (fold (\<lambda>c g'. add_concept_relations g' c) cs g) = node_tbl g"
proof (induction cs arbitrary: g)
  case Nil
  then show ?case by simp
next
  case (Cons c cs)
  have eq: "node_tbl (add_concept_relations g c) = node_tbl g"
    using Cons.prems by (simp add: node_tbl_add_concept_relations)
  then have "\<And>d. d \<in> set cs \<Longrightarrow> has_node (add_concept_relations g c) (concept_id d)"
    using Cons.prems by (simp add: has_node_def)
  then show ?case using Cons.IH eq by simp
qed

lemma has_node_build_graph_from:
  "has_node (build_graph_from g cs) n = (has_node g n \<or> n \<in> concept_id ` set cs)"
proof -
  let ?g1 = "fold (\<lambda>c g'. add_concept_node g' c) cs g"
  have "node_tbl (build_graph_from g cs) = node_tbl ?g1"
    unfolding build_graph_from_def
    by (rule node_tbl_fold_add_concept_relations) (simp add: has_node_fold_add_concept_node)
  then have "has_node (build_graph_from g cs) n = has_node ?g1 n"
    by (simp add: has_node_def)
  then show ?thesis by (simp add: has_node_fold_add_concept_node)
qed

lemma has_node_build_graph: "has_node (build_graph cs) n = (n \<in> concept_id ` set cs)"
  by (simp add: build_graph_def has_node_build_graph_from) (simp add: has_node_def empty_graph_def)

lemma has_node_update_concept:
  "has_node (update_concept g c) n = (has_node g n \<or> n = concept_id c)"
proof -
  let ?g1 = "if has_node g (concept_id c)
             then remove_edges_from g (in_edges g (concept_id c) @ out_edges g (concept_id c))
             else g"
  let ?g2 = "add_concept_node ?g1 c"
  have h: "has_node ?g2 (concept_id c)"
    by (simp add: add_concept_node_def has_node_add_node)
  have "node_tbl (update_concept g c) = node_tbl ?g2"
    unfolding update_concept_def Let_def by (rule node_tbl_add_concept_relations[OF h])
  then have "has_node (update_concept g c) n = has_node ?g2 n"
    by (simp add: has_node_def)
  then show ?thesis
    by (simp add: add_concept_node_def has_node_add_node has_node_remove_edges_from)
qed

lemma wf_no_edge_without_node:
  "wf_graph g \<Longrightarrow> \<not> has_node g t \<Longrightarrow> \<not> has_edge g u t \<and> \<not> has_edge g t u"
  unfolding wf_graph_def edges_closed_iff has_edge_edge_rel by blast

text \<open>
  Claim C8. A relation list that names an id for which no node exists creates no edge for
  that reference and no placeholder node, in \<^verbatim>\<open>build_graph\<close> and in \<^verbatim>\<open>update_concept\<close>:
  an id that is not a node stays a non-node and no edge touches it. (Neither function
  has a raising path in the source; the model functions are total.)
\<close>

theorem dangling_reference_dropped:
  "(t \<notin> concept_id ` set cs \<longrightarrow>
      \<not> has_node (build_graph cs) t \<and>
      (\<forall>u. \<not> has_edge (build_graph cs) u t \<and> \<not> has_edge (build_graph cs) t u)) \<and>
   (wf_graph g \<and> \<not> has_node g t \<and> t \<noteq> concept_id c \<longrightarrow>
      \<not> has_node (update_concept g c) t \<and>
      (\<forall>u. \<not> has_edge (update_concept g c) u t \<and> \<not> has_edge (update_concept g c) t u))"
proof (intro conjI impI allI)
  assume t: "t \<notin> concept_id ` set cs"
  then show n: "\<not> has_node (build_graph cs) t" by (simp add: has_node_build_graph)
  fix u
  from wf_no_edge_without_node[OF wf_build_graph n]
  show "\<not> has_edge (build_graph cs) u t" "\<not> has_edge (build_graph cs) t u" by auto
next
  assume a: "wf_graph g \<and> \<not> has_node g t \<and> t \<noteq> concept_id c"
  then show n: "\<not> has_node (update_concept g c) t" by (simp add: has_node_update_concept)
  fix u
  from a have "wf_graph (update_concept g c)" by (simp add: wf_update_concept)
  from wf_no_edge_without_node[OF this n]
  show "\<not> has_edge (update_concept g c) u t" "\<not> has_edge (update_concept g c) t u" by auto
qed

text \<open>Two records: \<open>a\<close> names a missing concept in \<open>broader\<close> and the concept \<open>b\<close> in \<open>related\<close>.\<close>

definition ex_a :: concept where
  "ex_a = (mk_concept ''a'' ''vault://concepts#a'' ''A'')\<lparr>broader := [''ghost''], related := [''b'']\<rparr>"

definition ex_b :: concept where
  "ex_b = mk_concept ''b'' ''vault://concepts#b'' ''B''"

theorem dangling_reference_dropped_witness:
  "''ghost'' \<notin> concept_id ` set [ex_a, ex_b] \<and>
   ''ghost'' \<in> set (broader ex_a) \<and>
   \<not> has_node (build_graph [ex_a, ex_b]) ''ghost'' \<and>
   \<not> has_edge (build_graph [ex_a, ex_b]) ''a'' ''ghost'' \<and>
   \<not> has_edge (build_graph [ex_a, ex_b]) ''ghost'' ''a'' \<and>
   wf_graph (build_graph [ex_b]) \<and> \<not> has_node (build_graph [ex_b]) ''ghost'' \<and>
   ''ghost'' \<noteq> concept_id ex_a \<and>
   \<not> has_node (update_concept (build_graph [ex_b]) ex_a) ''ghost'' \<and>
   \<not> has_edge (update_concept (build_graph [ex_b]) ex_a) ''a'' ''ghost'' \<and>
   \<not> has_edge (update_concept (build_graph [ex_b]) ex_a) ''ghost'' ''a'' \<and>
   has_edge (update_concept (build_graph [ex_b]) ex_a) ''a'' ''b''"
proof -
  have 1: "''ghost'' \<notin> concept_id ` set [ex_a, ex_b]"
    by (simp add: ex_a_def ex_b_def mk_concept_def)
  have 2: "wf_graph (build_graph [ex_b]) \<and> \<not> has_node (build_graph [ex_b]) ''ghost'' \<and>
     ''ghost'' \<noteq> concept_id ex_a"
    by (simp add: wf_build_graph has_node_build_graph ex_a_def ex_b_def mk_concept_def)
  have 3: "''ghost'' \<in> set (broader ex_a)" by (simp add: ex_a_def)
  have 4: "has_edge (update_concept (build_graph [ex_b]) ex_a) ''a'' ''b''" by code_simp
  show ?thesis
    using 1 2 3 4
      dangling_reference_dropped[of "''ghost''" "[ex_a, ex_b]" "build_graph [ex_b]" ex_a]
    by blast
qed

section \<open>Broader and narrower edges after a build\<close>

text \<open>The edge dictionary as a map from ordered pairs; the pair is one key.\<close>

definition edge_map :: "digraph \<Rightarrow> (string \<times> string) \<Rightarrow> string option" where
  "edge_map g = map_of (edge_tbl g)"

lemma edge_rel_edge_map: "edge_rel g u v = edge_map g (u, v)"
  by (simp add: edge_rel_def edge_map_def)

lemma has_edge_edge_map: "has_edge g u v = (edge_map g (u, v) \<noteq> None)"
  by (simp add: has_edge_def edge_map_def)

lemma edge_map_add_edge: "edge_map (add_edge g u v r) = (edge_map g)((u, v) \<mapsto> r)"
  by (simp add: edge_map_def add_edge_def Let_def edge_tbl_ensure_node AList.update_conv')

text \<open>
  \<open>hierarchy_pair g a b\<close>: the edge from a to b is a broader edge and its inverse a narrower
  edge. \<open>no_conflict r a b\<close>: the record r writes no other relation type on either ordered
  pair, that is, as a record of a it does not list b under related or prerequisite, and
  as a record of b it does not list a under broader, related or prerequisite.
\<close>

definition hierarchy_pair :: "digraph \<Rightarrow> string \<Rightarrow> string \<Rightarrow> bool" where
  "hierarchy_pair g a b =
     (edge_rel g a b = Some ''broader'' \<and> edge_rel g b a = Some ''narrower'')"

definition no_conflict :: "concept \<Rightarrow> string \<Rightarrow> string \<Rightarrow> bool" where
  "no_conflict r a b =
     ((concept_id r \<noteq> a \<or> (b \<notin> set (related r) \<and> b \<notin> set (prerequisite r))) \<and>
      (concept_id r \<noteq> b \<or>
         (a \<notin> set (broader r) \<and> a \<notin> set (related r) \<and> a \<notin> set (prerequisite r))))"

lemma two_keys_update:
  "m ka = Some p \<Longrightarrow> m kb = Some q \<Longrightarrow> (k = ka \<longrightarrow> r = p) \<Longrightarrow> (k = kb \<longrightarrow> r = q) \<Longrightarrow>
     (m(k \<mapsto> r)) ka = Some p \<and> (m(k \<mapsto> r)) kb = Some q"
  by auto

lemma two_keys_fresh:
  "m ka = Some p \<Longrightarrow> m kb = Some q \<Longrightarrow> m k = None \<Longrightarrow>
     (m(k \<mapsto> r)) ka = Some p \<and> (m(k \<mapsto> r)) kb = Some q"
  by auto

lemma hp_add_edge:
  assumes "hierarchy_pair g a b"
    and "(u, v) = (a, b) \<longrightarrow> r = ''broader''"
    and "(u, v) = (b, a) \<longrightarrow> r = ''narrower''"
  shows "hierarchy_pair (add_edge g u v r) a b"
  using assms unfolding hierarchy_pair_def edge_rel_edge_map edge_map_add_edge
  by (intro two_keys_update) blast+

lemma hp_add_edge_fresh:
  assumes "hierarchy_pair g a b" and "\<not> has_edge g u v"
  shows "hierarchy_pair (add_edge g u v r) a b"
  using assms unfolding hierarchy_pair_def edge_rel_edge_map edge_map_add_edge has_edge_edge_map
  by (intro two_keys_fresh) blast+

lemma hp_add_broader:
  assumes "hierarchy_pair g a b" and "\<not> (cid = b \<and> x = a)"
  shows "hierarchy_pair (add_broader cid x g) a b"
proof (cases "has_node g x")
  case False
  then show ?thesis using assms(1) by (simp add: add_broader_def)
next
  case True
  have 1: "hierarchy_pair (add_edge g cid x ''broader'') a b"
    using assms(1) by (rule hp_add_edge) (use assms(2) in auto)
  have "hierarchy_pair (add_edge (add_edge g cid x ''broader'') x cid ''narrower'') a b"
    using 1 by (rule hp_add_edge) (use assms(2) in auto)
  then show ?thesis using True by (simp add: add_broader_def)
qed

lemma hp_add_narrower:
  assumes "hierarchy_pair g a b"
  shows "hierarchy_pair (add_narrower cid x g) a b"
proof (cases "has_node g x")
  case False
  then show ?thesis using assms by (simp add: add_narrower_def)
next
  case True
  define g1 where "g1 = (if \<not> has_edge g cid x then add_edge g cid x ''narrower'' else g)"
  have 1: "hierarchy_pair g1 a b"
    unfolding g1_def using assms by (simp add: hp_add_edge_fresh)
  have 2: "hierarchy_pair (if \<not> has_edge g1 x cid then add_edge g1 x cid ''broader'' else g1) a b"
    using 1 by (simp add: hp_add_edge_fresh)
  have "add_narrower cid x g =
      (if \<not> has_edge g1 x cid then add_edge g1 x cid ''broader'' else g1)"
    using True by (simp add: add_narrower_def g1_def Let_def)
  then show ?thesis using 2 by (simp only:)
qed

lemma hp_add_related:
  assumes "hierarchy_pair g a b" and "\<not> (cid = a \<and> x = b)" and "\<not> (cid = b \<and> x = a)"
  shows "hierarchy_pair (add_related cid x g) a b"
proof (cases "has_node g x")
  case False
  then show ?thesis using assms(1) by (simp add: add_related_def)
next
  case True
  have 1: "hierarchy_pair (add_edge g cid x ''related'') a b"
    using assms(1) by (rule hp_add_edge) (use assms(2,3) in auto)
  have "hierarchy_pair (add_edge (add_edge g cid x ''related'') x cid ''related'') a b"
    using 1 by (rule hp_add_edge) (use assms(2,3) in auto)
  then show ?thesis using True by (simp add: add_related_def)
qed

lemma hp_add_prerequisite:
  assumes "hierarchy_pair g a b" and "\<not> (cid = a \<and> x = b)" and "\<not> (cid = b \<and> x = a)"
  shows "hierarchy_pair (add_prerequisite cid x g) a b"
proof (cases "has_node g x")
  case False
  then show ?thesis using assms(1) by (simp add: add_prerequisite_def)
next
  case True
  have "hierarchy_pair (add_edge g cid x ''prerequisite'') a b"
    using assms(1) by (rule hp_add_edge) (use assms(2,3) in auto)
  then show ?thesis using True by (simp add: add_prerequisite_def)
qed

lemma has_node_fold:
  assumes "\<And>x h. has_node h cid \<Longrightarrow> node_tbl (f x h) = node_tbl h"
  shows "has_node g cid \<Longrightarrow> has_node (fold f xs g) = has_node g"
  using node_tbl_fold[where f = f and cid = cid and g = g and xs = xs, OF assms]
  by (simp add: has_node_def fun_eq_iff)

lemma hp_add_broader_establish:
  assumes "has_node g b" "a \<noteq> b"
  shows "hierarchy_pair (add_broader a b g) a b"
proof -
  have "(((edge_map g)((a, b) \<mapsto> ''broader''))((b, a) \<mapsto> ''narrower'')) (a, b) = Some ''broader''"
    using assms(2) by simp
  then show ?thesis using assms(1)
    by (simp add: add_broader_def hierarchy_pair_def edge_rel_edge_map edge_map_add_edge)
qed

lemma hp_fold_broader_establish:
  assumes "has_node g a" "has_node g b" "b \<in> set xs" "a \<noteq> b"
  shows "hierarchy_pair (fold (add_broader a) xs g) a b"
proof -
  from assms(3) obtain ys zs where xs: "xs = ys @ b # zs" by (auto simp: in_set_conv_decomp)
  let ?g1 = "fold (add_broader a) ys g"
  have n1: "has_node ?g1 = has_node g"
    using assms(1) by (rule has_node_fold[rotated]) (rule node_tbl_add_broader)
  have "hierarchy_pair (add_broader a b ?g1) a b"
    using assms n1 by (simp add: hp_add_broader_establish)
  then have "hierarchy_pair (fold (add_broader a) zs (add_broader a b ?g1)) a b"
    by (rule fold_invariant) (use assms(4) in \<open>simp add: hp_add_broader\<close>)
  then show ?thesis by (simp add: xs)
qed


lemma hp_relations_preserve:
  assumes "hierarchy_pair g a b" "no_conflict r a b"
  shows "hierarchy_pair (add_concept_relations g r) a b"
proof -
  let ?i = "concept_id r"
  let ?g1 = "fold (add_broader ?i) (broader r) g"
  let ?g2 = "fold (add_narrower ?i) (narrower r) ?g1"
  let ?g3 = "fold (add_related ?i) (related r) ?g2"
  have c1: "\<And>x. x \<in> set (broader r) \<Longrightarrow> \<not> (?i = b \<and> x = a)"
    using assms(2) unfolding no_conflict_def by blast
  have c2: "\<And>x. x \<in> set (related r) \<Longrightarrow> \<not> (?i = a \<and> x = b) \<and> \<not> (?i = b \<and> x = a)"
    using assms(2) unfolding no_conflict_def by blast
  have c3: "\<And>x. x \<in> set (prerequisite r) \<Longrightarrow> \<not> (?i = a \<and> x = b) \<and> \<not> (?i = b \<and> x = a)"
    using assms(2) unfolding no_conflict_def by blast
  have 1: "hierarchy_pair ?g1 a b"
    using assms(1) by (rule fold_invariant) (rule hp_add_broader, assumption, rule c1)
  have 2: "hierarchy_pair ?g2 a b"
    using 1 by (rule fold_invariant) (rule hp_add_narrower)
  have 3: "hierarchy_pair ?g3 a b"
    using 2 by (rule fold_invariant) (rule hp_add_related, assumption, use c2 in blast, use c2 in blast)
  have "hierarchy_pair (fold (add_prerequisite ?i) (prerequisite r) ?g3) a b"
    using 3
    by (rule fold_invariant) (rule hp_add_prerequisite, assumption, use c3 in blast, use c3 in blast)
  then show ?thesis by (simp only: add_concept_relations_def Let_def)
qed

lemma hp_relations_establish:
  assumes "has_node g (concept_id c)" "has_node g b" "b \<in> set (broader c)"
    and "no_conflict c (concept_id c) b"
  shows "hierarchy_pair (add_concept_relations g c) (concept_id c) b"
proof -
  let ?i = "concept_id c"
  let ?g1 = "fold (add_broader ?i) (broader c) g"
  let ?g2 = "fold (add_narrower ?i) (narrower c) ?g1"
  let ?g3 = "fold (add_related ?i) (related c) ?g2"
  have ne: "?i \<noteq> b" using assms(3,4) unfolding no_conflict_def by blast
  have c2: "\<And>x. x \<in> set (related c) \<Longrightarrow> \<not> (?i = ?i \<and> x = b) \<and> \<not> (?i = b \<and> x = ?i)"
    using assms(4) ne unfolding no_conflict_def by blast
  have c3: "\<And>x. x \<in> set (prerequisite c) \<Longrightarrow> \<not> (?i = ?i \<and> x = b) \<and> \<not> (?i = b \<and> x = ?i)"
    using assms(4) ne unfolding no_conflict_def by blast
  have 1: "hierarchy_pair ?g1 ?i b"
    using assms(1,2,3) ne by (rule hp_fold_broader_establish)
  have 2: "hierarchy_pair ?g2 ?i b"
    using 1 by (rule fold_invariant) (rule hp_add_narrower)
  have 3: "hierarchy_pair ?g3 ?i b"
    using 2 by (rule fold_invariant) (rule hp_add_related, assumption, use c2 in blast, use c2 in blast)
  have "hierarchy_pair (fold (add_prerequisite ?i) (prerequisite c) ?g3) ?i b"
    using 3
    by (rule fold_invariant) (rule hp_add_prerequisite, assumption, use c3 in blast, use c3 in blast)
  then show ?thesis by (simp only: add_concept_relations_def Let_def)
qed

lemma has_node_add_concept_relations:
  "has_node g (concept_id c) \<Longrightarrow> has_node (add_concept_relations g c) = has_node g"
  by (simp add: node_tbl_add_concept_relations has_node_def fun_eq_iff)

lemma has_node_fold_add_concept_relations:
  "(\<And>c. c \<in> set cs \<Longrightarrow> has_node g (concept_id c)) \<Longrightarrow>
     has_node (fold (\<lambda>c g'. add_concept_relations g' c) cs g) = has_node g"
  by (simp add: node_tbl_fold_add_concept_relations has_node_def fun_eq_iff)

lemma hp_fold_relations:
  assumes "\<And>c. c \<in> set (ys @ A # zs) \<Longrightarrow> has_node g (concept_id c)"
    and "has_node g b" and "b \<in> set (broader A)"
    and "no_conflict A (concept_id A) b"
    and "\<And>r. r \<in> set zs \<Longrightarrow> no_conflict r (concept_id A) b"
  shows "hierarchy_pair (fold (\<lambda>c g'. add_concept_relations g' c) (ys @ A # zs) g)
           (concept_id A) b"
proof -
  let ?g1 = "fold (\<lambda>c g'. add_concept_relations g' c) ys g"
  have n1: "has_node ?g1 = has_node g"
    by (rule has_node_fold_add_concept_relations) (simp add: assms(1))
  have "hierarchy_pair (add_concept_relations ?g1 A) (concept_id A) b"
    by (rule hp_relations_establish) (simp_all add: n1 assms)
  then have "hierarchy_pair (fold (\<lambda>c g'. add_concept_relations g' c) zs
      (add_concept_relations ?g1 A)) (concept_id A) b"
    by (rule fold_invariant) (rule hp_relations_preserve, assumption, simp add: assms(5))
  then show ?thesis by simp
qed

lemma has_edge_add_edge_mono: "has_edge g x y \<Longrightarrow> has_edge (add_edge g u v r) x y"
  unfolding has_edge_edge_map edge_map_add_edge by auto

lemma has_edge_add_edge_same: "has_edge (add_edge g u v r) u v"
  unfolding has_edge_edge_map edge_map_add_edge by simp

lemma has_edge_add_broader_mono: "has_edge g x y \<Longrightarrow> has_edge (add_broader cid t g) x y"
  by (simp add: add_broader_def has_edge_add_edge_mono)

lemma has_edge_add_narrower_mono: "has_edge g x y \<Longrightarrow> has_edge (add_narrower cid t g) x y"
  by (simp add: add_narrower_def Let_def has_edge_add_edge_mono)

lemma has_edge_add_related_mono: "has_edge g x y \<Longrightarrow> has_edge (add_related cid t g) x y"
  by (simp add: add_related_def has_edge_add_edge_mono)

lemma has_edge_add_prerequisite_mono:
  "has_edge g x y \<Longrightarrow> has_edge (add_prerequisite cid t g) x y"
  by (simp add: add_prerequisite_def has_edge_add_edge_mono)

lemma has_edge_add_concept_relations_mono:
  "has_edge g x y \<Longrightarrow> has_edge (add_concept_relations g c) x y"
  unfolding add_concept_relations_def Let_def
  by (intro fold_invariant[where P = "\<lambda>h. has_edge h x y"] has_edge_add_broader_mono
      has_edge_add_narrower_mono has_edge_add_related_mono has_edge_add_prerequisite_mono)

lemma has_edge_fold_broader:
  assumes "has_node g a" "has_node g b" "b \<in> set xs"
  shows "has_edge (fold (add_broader a) xs g) a b \<and> has_edge (fold (add_broader a) xs g) b a"
proof -
  from assms(3) obtain ys zs where xs: "xs = ys @ b # zs" by (auto simp: in_set_conv_decomp)
  let ?g1 = "fold (add_broader a) ys g"
  have n1: "has_node ?g1 = has_node g"
    using assms(1) by (rule has_node_fold[rotated]) (rule node_tbl_add_broader)
  have e: "has_edge (add_broader a b ?g1) a b \<and> has_edge (add_broader a b ?g1) b a"
    using assms(2) n1
    by (simp add: add_broader_def has_edge_add_edge_mono has_edge_add_edge_same)
  have "has_edge (fold (add_broader a) zs (add_broader a b ?g1)) a b"
    by (rule fold_invariant[where P = "\<lambda>h. has_edge h a b"])
       (simp_all add: e has_edge_add_broader_mono)
  moreover have "has_edge (fold (add_broader a) zs (add_broader a b ?g1)) b a"
    by (rule fold_invariant[where P = "\<lambda>h. has_edge h b a"])
       (simp_all add: e has_edge_add_broader_mono)
  ultimately show ?thesis by (simp add: xs)
qed

lemma has_edge_relations_broader:
  assumes "has_node g (concept_id c)" "has_node g b" "b \<in> set (broader c)"
  shows "has_edge (add_concept_relations g c) (concept_id c) b \<and>
         has_edge (add_concept_relations g c) b (concept_id c)"
proof -
  let ?i = "concept_id c"
  let ?g1 = "fold (add_broader ?i) (broader c) g"
  have 1: "has_edge ?g1 ?i b \<and> has_edge ?g1 b ?i"
    using assms by (rule has_edge_fold_broader)
  let ?g2 = "fold (add_narrower ?i) (narrower c) ?g1"
  let ?g3 = "fold (add_related ?i) (related c) ?g2"
  have m: "has_edge (add_concept_relations g c) x y" if h: "has_edge ?g1 x y" for x y
  proof -
    have 2: "has_edge ?g2 x y"
      using h by (rule fold_invariant) (rule has_edge_add_narrower_mono)
    have 3: "has_edge ?g3 x y"
      using 2 by (rule fold_invariant) (rule has_edge_add_related_mono)
    have "has_edge (fold (add_prerequisite ?i) (prerequisite c) ?g3) x y"
      using 3 by (rule fold_invariant) (rule has_edge_add_prerequisite_mono)
    then show ?thesis by (simp only: add_concept_relations_def Let_def)
  qed
  show ?thesis using 1 m by blast
qed

lemma has_edge_fold_relations:
  assumes "\<And>c. c \<in> set cs \<Longrightarrow> has_node g (concept_id c)"
    and "has_node g b" and "A \<in> set cs" and "b \<in> set (broader A)"
  shows "has_edge (fold (\<lambda>c g'. add_concept_relations g' c) cs g) (concept_id A) b \<and>
         has_edge (fold (\<lambda>c g'. add_concept_relations g' c) cs g) b (concept_id A)"
proof -
  from assms(3) obtain ys zs where cs: "cs = ys @ A # zs" by (auto simp: in_set_conv_decomp)
  let ?g1 = "fold (\<lambda>c g'. add_concept_relations g' c) ys g"
  let ?g2 = "add_concept_relations ?g1 A"
  have n1: "has_node ?g1 = has_node g"
    by (rule has_node_fold_add_concept_relations) (simp add: assms(1) cs)
  have e: "has_edge ?g2 (concept_id A) b \<and> has_edge ?g2 b (concept_id A)"
    by (rule has_edge_relations_broader) (simp_all add: n1 assms cs)
  have "has_edge (fold (\<lambda>c g'. add_concept_relations g' c) zs ?g2) (concept_id A) b"
    by (rule fold_invariant[where P = "\<lambda>h. has_edge h (concept_id A) b"])
       (simp_all add: e has_edge_add_concept_relations_mono)
  moreover have "has_edge (fold (\<lambda>c g'. add_concept_relations g' c) zs ?g2) b (concept_id A)"
    by (rule fold_invariant[where P = "\<lambda>h. has_edge h b (concept_id A)"])
       (simp_all add: e has_edge_add_concept_relations_mono)
  ultimately show ?thesis by (simp add: cs)
qed

text \<open>
  Claim C1, as amended. After \<^verbatim>\<open>build_graph\<close>, for every record A of the input (at any
  position: the input is \<open>ys @ A # zs\<close>) and every id b in A's broader list that is a node,
  the edges from A to b and from b to A both exist; they carry the relation types broader
  and narrower when neither A itself nor a record processed after A writes another
  relation type on one of the two ordered pairs. What records before A declare does not
  matter: A's broader loop overwrites it. The graph holds one edge with one relation type
  per ordered pair, so a later write on the same pair replaces the type.
\<close>

theorem broader_edges_unless_overwritten:
  assumes "cs = ys @ A # zs" and "b \<in> set (broader A)" and "has_node (build_graph cs) b"
  shows "has_edge (build_graph cs) (concept_id A) b \<and> has_edge (build_graph cs) b (concept_id A) \<and>
         (no_conflict A (concept_id A) b \<and> (\<forall>r \<in> set zs. no_conflict r (concept_id A) b) \<longrightarrow>
            edge_rel (build_graph cs) (concept_id A) b = Some ''broader'' \<and>
            edge_rel (build_graph cs) b (concept_id A) = Some ''narrower'')"
proof -
  let ?g1 = "fold (\<lambda>c g'. add_concept_node g' c) cs empty_graph"
  have A: "A \<in> set cs" using assms(1) by simp
  have nodes: "\<And>c. c \<in> set cs \<Longrightarrow> has_node ?g1 (concept_id c)"
    by (simp add: has_node_fold_add_concept_node)
  have b: "has_node ?g1 b"
    using assms(3) by (simp add: has_node_build_graph has_node_fold_add_concept_node)
  have bg: "build_graph cs = fold (\<lambda>c g'. add_concept_relations g' c) cs ?g1"
    by (simp add: build_graph_def build_graph_from_def)
  have 1: "has_edge (build_graph cs) (concept_id A) b \<and> has_edge (build_graph cs) b (concept_id A)"
    unfolding bg using nodes b A assms(2) by (rule has_edge_fold_relations)
  have 2: "hierarchy_pair (build_graph cs) (concept_id A) b"
    if nc: "no_conflict A (concept_id A) b \<and> (\<forall>r \<in> set zs. no_conflict r (concept_id A) b)"
  proof -
    have r: "\<And>r. r \<in> set zs \<Longrightarrow> no_conflict r (concept_id A) b" using nc by blast
    have a: "no_conflict A (concept_id A) b" using nc by blast
    have n: "\<And>c. c \<in> set (ys @ A # zs) \<Longrightarrow> has_node ?g1 (concept_id c)"
      using nodes assms(1) by simp
    have "hierarchy_pair (fold (\<lambda>c g'. add_concept_relations g' c) (ys @ A # zs) ?g1)
        (concept_id A) b"
      using n b assms(2) a r by (rule hp_fold_relations)
    then show ?thesis using bg assms(1) by simp
  qed
  show ?thesis using 1 2 unfolding hierarchy_pair_def by blast
qed

text \<open>
  A record that lists the same concept under broader and under related: the related loop
  runs after the broader loop and overwrites both edges. \<open>earlier_b\<close> lists a under
  related; \<open>hier_child\<close> has only a broader reference to b.
\<close>

definition cex_both :: concept where
  "cex_both = (mk_concept ''a'' ''vault://concepts#a'' ''A'')\<lparr>broader := [''b''], related := [''b'']\<rparr>"

definition earlier_b :: concept where
  "earlier_b = (mk_concept ''b'' ''vault://concepts#b'' ''B'')\<lparr>related := [''a'']\<rparr>"

definition hier_child :: concept where
  "hier_child = (mk_concept ''a'' ''vault://concepts#a'' ''A'')\<lparr>broader := [''b'']\<rparr>"

text \<open>
  Claim C1 as stated fails: the record lists b under broader, b is a node, and the edge
  from a to b carries the relation type related, not broader.
\<close>

theorem broader_edge_overwritten_by_related:
  "cex_both \<in> set [cex_both, ex_b] \<and> ''b'' \<in> set (broader cex_both) \<and>
   has_node (build_graph [cex_both, ex_b]) ''b'' \<and>
   edge_rel (build_graph [cex_both, ex_b]) (concept_id cex_both) ''b'' = Some ''related'' \<and>
   edge_rel (build_graph [cex_both, ex_b]) (concept_id cex_both) ''b'' \<noteq> Some ''broader''"
  by code_simp

theorem broader_edges_unless_overwritten_witness:
  "[earlier_b, hier_child] = [earlier_b] @ hier_child # [] \<and>
   ''b'' \<in> set (broader hier_child) \<and>
   has_node (build_graph [earlier_b, hier_child]) ''b'' \<and>
   no_conflict hier_child ''a'' ''b'' \<and> \<not> no_conflict earlier_b ''a'' ''b'' \<and>
   has_edge (build_graph [earlier_b, hier_child]) ''a'' ''b'' \<and>
   has_edge (build_graph [earlier_b, hier_child]) ''b'' ''a'' \<and>
   edge_rel (build_graph [earlier_b, hier_child]) ''a'' ''b'' = Some ''broader'' \<and>
   edge_rel (build_graph [earlier_b, hier_child]) ''b'' ''a'' = Some ''narrower''"
proof -
  have 1: "[earlier_b, hier_child] = [earlier_b] @ hier_child # []" by simp
  have 2: "''b'' \<in> set (broader hier_child)" by (simp add: hier_child_def)
  have 3: "has_node (build_graph [earlier_b, hier_child]) ''b''"
    by (simp add: has_node_build_graph earlier_b_def mk_concept_def)
  have 4: "no_conflict hier_child ''a'' ''b'' \<and> \<not> no_conflict earlier_b ''a'' ''b''"
    by (simp add: no_conflict_def hier_child_def earlier_b_def mk_concept_def)
  have 5: "concept_id hier_child = ''a''" by (simp add: hier_child_def mk_concept_def)
  show ?thesis
    using broader_edges_unless_overwritten[OF 1 2 3] 3 4 2 unfolding 5 by simp
qed

section \<open>Updating one concept\<close>

text \<open>
  The writes of each loop of \<^verbatim>\<open>_add_concept_relations\<close> as a map on ordered pairs: \<open>fwd\<close>
  are the pairs from the concept to a listed target, \<open>bwd\<close> the pairs back; X is the set
  of listed targets that are nodes. The broader loop writes the inverse after the forward
  edge, the narrower loop writes only where no edge exists.
\<close>

definition fwd :: "string \<Rightarrow> string set \<Rightarrow> string \<times> string \<Rightarrow> bool" where
  "fwd cid X k = (fst k = cid \<and> snd k \<in> X)"

definition bwd :: "string \<Rightarrow> string set \<Rightarrow> string \<times> string \<Rightarrow> bool" where
  "bwd cid X k = (snd k = cid \<and> fst k \<in> X)"

definition bmap :: "string \<Rightarrow> string set \<Rightarrow> string \<times> string \<Rightarrow> string option" where
  "bmap cid X k = (if bwd cid X k then Some ''narrower''
                   else if fwd cid X k then Some ''broader'' else None)"

definition nmap :: "string \<Rightarrow> string set \<Rightarrow> string \<times> string \<Rightarrow> string option" where
  "nmap cid X k = (if fwd cid X k then Some ''narrower''
                   else if bwd cid X k then Some ''broader'' else None)"

definition rmap :: "string \<Rightarrow> string set \<Rightarrow> string \<times> string \<Rightarrow> string option" where
  "rmap cid X k = (if fwd cid X k \<or> bwd cid X k then Some ''related'' else None)"

definition pmap :: "string \<Rightarrow> string set \<Rightarrow> string \<times> string \<Rightarrow> string option" where
  "pmap cid X k = (if fwd cid X k then Some ''prerequisite'' else None)"

lemma edge_map_add_broader:
  "edge_map (add_broader cid x g) =
     (if has_node g x then (edge_map g)((cid, x) \<mapsto> ''broader'', (x, cid) \<mapsto> ''narrower'')
      else edge_map g)"
  by (simp add: add_broader_def edge_map_add_edge)

lemma edge_map_add_related:
  "edge_map (add_related cid x g) =
     (if has_node g x then (edge_map g)((cid, x) \<mapsto> ''related'', (x, cid) \<mapsto> ''related'')
      else edge_map g)"
  by (simp add: add_related_def edge_map_add_edge)

lemma edge_map_add_prerequisite:
  "edge_map (add_prerequisite cid x g) =
     (if has_node g x then (edge_map g)((cid, x) \<mapsto> ''prerequisite'') else edge_map g)"
  by (simp add: add_prerequisite_def edge_map_add_edge)

lemma edge_map_add_narrower_self:
  "has_node g c \<Longrightarrow> edge_map (add_narrower c c g) = [(c, c) \<mapsto> ''narrower''] ++ edge_map g"
  by (auto simp: add_narrower_def Let_def has_edge_edge_map edge_map_add_edge fun_eq_iff
      map_add_def split: option.splits)

lemma edge_map_add_narrower_other:
  "has_node g x \<Longrightarrow> x \<noteq> cid \<Longrightarrow>
     edge_map (add_narrower cid x g) =
       [(x, cid) \<mapsto> ''broader'', (cid, x) \<mapsto> ''narrower''] ++ edge_map g"
  by (auto simp: add_narrower_def Let_def has_edge_edge_map edge_map_add_edge fun_eq_iff
      map_add_def split: option.splits)

lemma edge_map_add_narrower:
  "edge_map (add_narrower cid x g) =
     (if has_node g x then [(x, cid) \<mapsto> ''broader'', (cid, x) \<mapsto> ''narrower''] ++ edge_map g
      else edge_map g)"
proof (cases "has_node g x")
  case False
  then show ?thesis by (simp add: add_narrower_def)
next
  case True
  show ?thesis
  proof (cases "x = cid")
    case e: True
    have "edge_map (add_narrower cid cid g) = [(cid, cid) \<mapsto> ''narrower''] ++ edge_map g"
      using True e by (simp add: edge_map_add_narrower_self)
    then show ?thesis using True e by simp
  next
    case False
    then show ?thesis using True by (simp add: edge_map_add_narrower_other)
  qed
qed


lemma bmap_empty: "bmap cid {} = Map.empty"
  by (simp add: bmap_def fwd_def bwd_def fun_eq_iff)

lemma nmap_empty: "nmap cid {} = Map.empty"
  by (simp add: nmap_def fwd_def bwd_def fun_eq_iff)

lemma rmap_empty: "rmap cid {} = Map.empty"
  by (simp add: rmap_def fwd_def bwd_def fun_eq_iff)

lemma pmap_empty: "pmap cid {} = Map.empty"
  by (simp add: pmap_def fwd_def fun_eq_iff)

lemma bmap_insert:
  "(m ++ bmap cid X)((cid, x) \<mapsto> ''broader'', (x, cid) \<mapsto> ''narrower'') =
     m ++ bmap cid (insert x X)"
  by (auto simp: fun_eq_iff map_add_def bmap_def fwd_def bwd_def prod_eq_iff split: option.splits)

lemma rmap_insert:
  "(m ++ rmap cid X)((cid, x) \<mapsto> ''related'', (x, cid) \<mapsto> ''related'') =
     m ++ rmap cid (insert x X)"
  by (auto simp: fun_eq_iff map_add_def rmap_def fwd_def bwd_def prod_eq_iff split: option.splits)

lemma pmap_insert:
  "(m ++ pmap cid X)((cid, x) \<mapsto> ''prerequisite'') = m ++ pmap cid (insert x X)"
  by (auto simp: fun_eq_iff map_add_def pmap_def fwd_def prod_eq_iff split: option.splits)

lemma nmap_insert_self:
  "[(c, c) \<mapsto> ''narrower''] ++ (nmap c X ++ m) = nmap c (insert c X) ++ m"
  by (auto simp: fun_eq_iff map_add_def nmap_def fwd_def bwd_def prod_eq_iff split: option.splits)

lemma nmap_insert_other:
  "x \<noteq> cid \<Longrightarrow>
     [(x, cid) \<mapsto> ''broader'', (cid, x) \<mapsto> ''narrower''] ++ (nmap cid X ++ m) =
       nmap cid (insert x X) ++ m"
  by (auto simp: fun_eq_iff map_add_def nmap_def fwd_def bwd_def prod_eq_iff split: option.splits)

lemma nmap_insert:
  "[(x, cid) \<mapsto> ''broader'', (cid, x) \<mapsto> ''narrower''] ++ (nmap cid X ++ m) =
     nmap cid (insert x X) ++ m"
proof (cases "x = cid")
  case True
  have "[(cid, cid) \<mapsto> ''broader'', (cid, cid) \<mapsto> ''narrower''] = [(cid, cid) \<mapsto> ''narrower'']"
    by simp
  then show ?thesis using True nmap_insert_self[of cid X m] by simp
next
  case False
  then show ?thesis by (rule nmap_insert_other)
qed

lemma Collect_snoc:
  "{y \<in> set (xs @ [x]). P y} = (if P x then insert x {y \<in> set xs. P y} else {y \<in> set xs. P y})"
  by auto

lemma edge_map_fold_broader:
  assumes "has_node g cid"
  shows "edge_map (fold (add_broader cid) xs g) =
           edge_map g ++ bmap cid {x \<in> set xs. has_node g x}"
proof (induction xs rule: rev_induct)
  case Nil
  then show ?case by (simp add: bmap_empty)
next
  case (snoc x xs)
  have n: "has_node (fold (add_broader cid) xs g) = has_node g"
    using assms by (rule has_node_fold[rotated]) (rule node_tbl_add_broader)
  show ?case
    by (simp only: fold_append fold_simps comp_apply id_apply edge_map_add_broader n snoc.IH
        Collect_snoc bmap_insert split: if_split) simp
qed

lemma edge_map_fold_narrower:
  assumes "has_node g cid"
  shows "edge_map (fold (add_narrower cid) xs g) =
           nmap cid {x \<in> set xs. has_node g x} ++ edge_map g"
proof (induction xs rule: rev_induct)
  case Nil
  then show ?case by (simp add: nmap_empty)
next
  case (snoc x xs)
  have n: "has_node (fold (add_narrower cid) xs g) = has_node g"
    using assms by (rule has_node_fold[rotated]) (rule node_tbl_add_narrower)
  show ?case
    by (simp only: fold_append fold_simps comp_apply id_apply edge_map_add_narrower n snoc.IH
        Collect_snoc nmap_insert split: if_split) simp
qed

lemma edge_map_fold_related:
  assumes "has_node g cid"
  shows "edge_map (fold (add_related cid) xs g) =
           edge_map g ++ rmap cid {x \<in> set xs. has_node g x}"
proof (induction xs rule: rev_induct)
  case Nil
  then show ?case by (simp add: rmap_empty)
next
  case (snoc x xs)
  have n: "has_node (fold (add_related cid) xs g) = has_node g"
    using assms by (rule has_node_fold[rotated]) (rule node_tbl_add_related)
  show ?case
    by (simp only: fold_append fold_simps comp_apply id_apply edge_map_add_related n snoc.IH
        Collect_snoc rmap_insert split: if_split) simp
qed

lemma edge_map_fold_prerequisite:
  assumes "has_node g cid"
  shows "edge_map (fold (add_prerequisite cid) xs g) =
           edge_map g ++ pmap cid {x \<in> set xs. has_node g x}"
proof (induction xs rule: rev_induct)
  case Nil
  then show ?case by (simp add: pmap_empty)
next
  case (snoc x xs)
  have n: "has_node (fold (add_prerequisite cid) xs g) = has_node g"
    using assms by (rule has_node_fold[rotated]) (rule node_tbl_add_prerequisite)
  show ?case
    by (simp only: fold_append fold_simps comp_apply id_apply edge_map_add_prerequisite n snoc.IH
        Collect_snoc pmap_insert split: if_split) simp
qed

lemma edge_map_add_concept_relations:
  assumes "has_node g (concept_id c)"
  shows "edge_map (add_concept_relations g c) =
    (((nmap (concept_id c) {x \<in> set (narrower c). has_node g x} ++
       (edge_map g ++ bmap (concept_id c) {x \<in> set (broader c). has_node g x})) ++
      rmap (concept_id c) {x \<in> set (related c). has_node g x}) ++
     pmap (concept_id c) {x \<in> set (prerequisite c). has_node g x})"
proof -
  let ?i = "concept_id c"
  let ?g1 = "fold (add_broader ?i) (broader c) g"
  let ?g2 = "fold (add_narrower ?i) (narrower c) ?g1"
  let ?g3 = "fold (add_related ?i) (related c) ?g2"
  have n1: "has_node ?g1 = has_node g"
    using assms by (rule has_node_fold[rotated]) (rule node_tbl_add_broader)
  have n2: "has_node ?g2 = has_node g"
    using has_node_fold[where f = "add_narrower ?i" and g = ?g1 and cid = ?i, OF node_tbl_add_narrower]
      assms n1 by simp
  have n3: "has_node ?g3 = has_node g"
    using has_node_fold[where f = "add_related ?i" and g = ?g2 and cid = ?i, OF node_tbl_add_related]
      assms n2 by simp
  have 1: "edge_map ?g1 = edge_map g ++ bmap ?i {x \<in> set (broader c). has_node g x}"
    using assms by (rule edge_map_fold_broader)
  have 2: "edge_map ?g2 = nmap ?i {x \<in> set (narrower c). has_node g x} ++ edge_map ?g1"
    using edge_map_fold_narrower[of ?g1 ?i "narrower c"] assms n1 by simp
  have 3: "edge_map ?g3 = edge_map ?g2 ++ rmap ?i {x \<in> set (related c). has_node g x}"
    using edge_map_fold_related[of ?g2 ?i "related c"] assms n2 by simp
  have 4: "edge_map (fold (add_prerequisite ?i) (prerequisite c) ?g3) =
      edge_map ?g3 ++ pmap ?i {x \<in> set (prerequisite c). has_node g x}"
    using edge_map_fold_prerequisite[of ?g3 ?i "prerequisite c"] assms n3 by simp
  show ?thesis
    unfolding add_concept_relations_def Let_def 4 3 2 1 ..
qed


text \<open>
  The relation type that \<^verbatim>\<open>update_concept\<close> leaves on an ordered pair incident to the
  concept: the last loop that writes the pair decides (prerequisite, then related, then
  broader), and the narrower loop only fills pairs that no broader reference wrote.
\<close>

definition derived_rel :: "concept \<Rightarrow> (string \<Rightarrow> bool) \<Rightarrow> string \<Rightarrow> string \<Rightarrow> string option" where
  "derived_rel c is_node u v =
     (if u = concept_id c \<and> v \<in> set (prerequisite c) \<and> is_node v then Some ''prerequisite''
      else if (u = concept_id c \<and> v \<in> set (related c) \<and> is_node v) \<or>
              (v = concept_id c \<and> u \<in> set (related c) \<and> is_node u) then Some ''related''
      else if v = concept_id c \<and> u \<in> set (broader c) \<and> is_node u then Some ''narrower''
      else if u = concept_id c \<and> v \<in> set (broader c) \<and> is_node v then Some ''broader''
      else if u = concept_id c \<and> v \<in> set (narrower c) \<and> is_node v then Some ''narrower''
      else if v = concept_id c \<and> u \<in> set (narrower c) \<and> is_node u then Some ''broader''
      else None)"

lemma edge_map_None_iff: "(edge_map g k = None) = (k \<notin> fst ` set (edge_tbl g))"
  by (simp add: edge_map_def map_of_eq_None_iff)

lemma edge_map_remove_edges_from:
  "edge_map (remove_edges_from g es) k = (if k \<in> set es then None else edge_map g k)"
  by (simp add: remove_edges_from_def edge_map_def map_of_fold_delete)

lemma edge_map_remove_incident:
  "edge_map (remove_edges_from g (in_edges g n @ out_edges g n)) k =
     (if fst k = n \<or> snd k = n then None else edge_map g k)"
proof (cases "k \<in> fst ` set (edge_tbl g)")
  case True
  then show ?thesis
    by (auto simp: edge_map_remove_edges_from in_edges_def out_edges_def)
next
  case False
  then have "edge_map g k = None" by (simp add: edge_map_None_iff)
  then show ?thesis by (simp add: edge_map_remove_edges_from)
qed

lemma wf_no_incident:
  assumes "wf_graph g" "\<not> has_node g n" "fst k = n \<or> snd k = n"
  shows "edge_map g k = None"
proof -
  have "\<not> has_edge g (fst k) (snd k)"
    using wf_no_edge_without_node[OF assms(1,2)] assms(3) by metis
  then show ?thesis by (simp add: has_edge_edge_map)
qed

text \<open>The first step of \<^verbatim>\<open>update_concept\<close>, named for the proofs.\<close>

definition clear_incident :: "digraph \<Rightarrow> string \<Rightarrow> digraph" where
  "clear_incident g n =
     (if has_node g n then remove_edges_from g (in_edges g n @ out_edges g n) else g)"

lemma edge_map_clear_incident:
  assumes "wf_graph g"
  shows "edge_map (clear_incident g n) k = (if fst k = n \<or> snd k = n then None else edge_map g k)"
proof (cases "has_node g n")
  case True
  then show ?thesis by (simp only: clear_incident_def if_True edge_map_remove_incident)
next
  case False
  then show ?thesis using wf_no_incident[OF assms False, of k]
    by (simp add: clear_incident_def)
qed

lemma has_node_clear_incident: "has_node (clear_incident g n) = has_node g"
  by (simp add: clear_incident_def has_node_remove_edges_from)

lemma update_concept_unfold:
  "update_concept g c = add_concept_relations (add_concept_node (clear_incident g (concept_id c)) c) c"
  by (simp add: update_concept_def clear_incident_def Let_def)

lemma edge_map_add_concept_node: "edge_map (add_concept_node g c) = edge_map g"
  by (simp add: edge_map_def add_concept_node_def add_node_def)

lemma has_node_add_concept_node:
  "has_node (add_concept_node g c) n = (has_node g n \<or> n = concept_id c)"
  by (simp add: add_concept_node_def has_node_add_node)

lemma get_concept_update_concept:
  "get_concept (update_concept g c) (concept_id c) = Some (to_dict c)"
proof -
  let ?g2 = "add_concept_node (clear_incident g (concept_id c)) c"
  have h: "has_node ?g2 (concept_id c)" by (simp add: has_node_add_concept_node)
  have "node_tbl (update_concept g c) = node_tbl ?g2"
    unfolding update_concept_unfold by (rule node_tbl_add_concept_relations[OF h])
  then show ?thesis
    by (simp add: get_concept_def has_node_def add_concept_node_def add_node_def
        AList.update_conv' AList.dom_update)
qed

lemma case_if_one:
  "(case (if A then Some p else None) of None \<Rightarrow> X | Some r \<Rightarrow> Some r) =
     (if A then Some p else X)"
  by simp

lemma case_if_two:
  "(case (if A then Some p else if B then Some q else None) of None \<Rightarrow> X | Some r \<Rightarrow> Some r) =
     (if A then Some p else if B then Some q else X)"
  by simp

lemma compose_incident:
  "m k = None \<Longrightarrow>
     (((nm ++ (m ++ bm)) ++ rm) ++ pm) k =
       (case pm k of
          None \<Rightarrow> (case rm k of
                     None \<Rightarrow> (case bm k of None \<Rightarrow> nm k | Some r \<Rightarrow> Some r)
                   | Some r \<Rightarrow> Some r)
        | Some r \<Rightarrow> Some r)"
  by (simp add: map_add_def split: option.splits)

lemma compose_not_incident:
  "nm k = None \<Longrightarrow> bm k = None \<Longrightarrow> rm k = None \<Longrightarrow> pm k = None \<Longrightarrow>
     (((nm ++ (m ++ bm)) ++ rm) ++ pm) k = m k"
  by (simp add: map_add_def split: option.splits)

lemma derived_rel_alt:
  "derived_rel c N u v =
     (if fwd (concept_id c) {x \<in> set (prerequisite c). N x} (u, v) then Some ''prerequisite''
      else if fwd (concept_id c) {x \<in> set (related c). N x} (u, v) \<or>
              bwd (concept_id c) {x \<in> set (related c). N x} (u, v) then Some ''related''
      else if bwd (concept_id c) {x \<in> set (broader c). N x} (u, v) then Some ''narrower''
      else if fwd (concept_id c) {x \<in> set (broader c). N x} (u, v) then Some ''broader''
      else if fwd (concept_id c) {x \<in> set (narrower c). N x} (u, v) then Some ''narrower''
      else if bwd (concept_id c) {x \<in> set (narrower c). N x} (u, v) then Some ''broader''
      else None)"
  by (simp only: derived_rel_def fwd_def bwd_def fst_conv snd_conv mem_Collect_eq)

lemma maps_not_incident:
  assumes "u \<noteq> i" "v \<noteq> i"
  shows "nmap i X (u, v) = None" "bmap i X (u, v) = None"
    "rmap i X (u, v) = None" "pmap i X (u, v) = None"
  using assms by (simp_all add: nmap_def bmap_def rmap_def pmap_def fwd_def bwd_def)

lemma edge_map_update_concept:
  assumes "wf_graph g"
  shows "edge_map (update_concept g c) (u, v) =
     (if u = concept_id c \<or> v = concept_id c
      then derived_rel c (has_node (update_concept g c)) u v
      else edge_map g (u, v))"
proof -
  let ?i = "concept_id c"
  let ?g1 = "clear_incident g ?i"
  let ?g2 = "add_concept_node ?g1 c"
  let ?N = "has_node (update_concept g c)"
  have h: "has_node ?g2 ?i" by (simp add: has_node_add_concept_node)
  have N: "has_node ?g2 = ?N"
    unfolding update_concept_unfold using has_node_add_concept_relations[OF h] by simp
  have m2: "edge_map ?g2 (u, v) = (if u = ?i \<or> v = ?i then None else edge_map g (u, v))"
    using edge_map_clear_incident[OF assms, of ?i "(u, v)"] by (simp add: edge_map_add_concept_node)
  note E = edge_map_add_concept_relations[OF h, unfolded N, folded update_concept_unfold]
  show ?thesis
  proof (cases "u = ?i \<or> v = ?i")
    case False
    then have "edge_map (update_concept g c) (u, v) = edge_map ?g2 (u, v)"
      unfolding E by (intro compose_not_incident maps_not_incident) simp_all
    then show ?thesis using False m2 by simp
  next
    case True
    then have z: "edge_map ?g2 (u, v) = None" using m2 by simp
    have "edge_map (update_concept g c) (u, v) = derived_rel c ?N u v"
      unfolding E compose_incident[where m = "edge_map ?g2" and k = "(u, v)", OF z] derived_rel_alt
      unfolding pmap_def rmap_def bmap_def nmap_def case_if_one case_if_two ..
    then show ?thesis using True by simp
  qed
qed

text \<open>
  Claim C2, as amended. After \<^verbatim>\<open>update_concept\<close> on a graph, \<^verbatim>\<open>get_concept\<close> returns the
  new attributes; every edge between two nodes other than the concept is as it was; and
  an ordered pair incident to the concept carries exactly one relation type, the one
  \<open>derived_rel\<close> gives from the concept's current relation lists (none when no list names an
  existing node for that pair). When one target is listed under several relation types
  only the last written type is kept.
\<close>

theorem upsert_replaces_incident_edges:
  assumes "wf_graph g"
  shows "get_concept (update_concept g c) (concept_id c) = Some (to_dict c) \<and>
         (\<forall>u v. edge_rel (update_concept g c) u v =
            (if u = concept_id c \<or> v = concept_id c
             then derived_rel c (has_node (update_concept g c)) u v
             else edge_rel g u v))"
  using edge_map_update_concept[OF assms, of c]
  by (simp add: get_concept_update_concept edge_rel_edge_map)

text \<open>A new version of concept a, and a third concept related to b.\<close>

definition upsert_a :: concept where
  "upsert_a = (mk_concept ''a'' ''vault://concepts#a'' ''A2'')\<lparr>narrower := [''b''], prerequisite := [''c'']\<rparr>"

definition ex_c :: concept where
  "ex_c = (mk_concept ''c'' ''vault://concepts#c'' ''C'')\<lparr>related := [''b'']\<rparr>"

text \<open>
  Claim C2 as stated fails: the upserted record lists b under broader and b is a node, so
  the edge set derived from its relation lists holds a broader edge from a to b; the graph
  holds a related edge on that pair instead.
\<close>

theorem upsert_broader_edge_overwritten:
  "''b'' \<in> set (broader cex_both) \<and>
   has_node (update_concept (build_graph [ex_b]) cex_both) ''b'' \<and>
   get_concept (update_concept (build_graph [ex_b]) cex_both) ''a'' = Some (to_dict cex_both) \<and>
   edge_rel (update_concept (build_graph [ex_b]) cex_both) ''a'' ''b'' = Some ''related'' \<and>
   edge_rel (update_concept (build_graph [ex_b]) cex_both) ''a'' ''b'' \<noteq> Some ''broader''"
  by code_simp

theorem upsert_replaces_incident_edges_witness:
  "wf_graph (build_graph [hier_child, ex_b, ex_c]) \<and>
   get_concept (update_concept (build_graph [hier_child, ex_b, ex_c]) upsert_a) ''a'' =
     Some (to_dict upsert_a) \<and>
   edge_rel (update_concept (build_graph [hier_child, ex_b, ex_c]) upsert_a) ''a'' ''b'' =
     Some ''narrower'' \<and>
   edge_rel (update_concept (build_graph [hier_child, ex_b, ex_c]) upsert_a) ''b'' ''a'' =
     Some ''broader'' \<and>
   edge_rel (update_concept (build_graph [hier_child, ex_b, ex_c]) upsert_a) ''a'' ''c'' =
     Some ''prerequisite'' \<and>
   edge_rel (update_concept (build_graph [hier_child, ex_b, ex_c]) upsert_a) ''c'' ''a'' = None \<and>
   edge_rel (update_concept (build_graph [hier_child, ex_b, ex_c]) upsert_a) ''c'' ''b'' =
     Some ''related''"
proof -
  let ?g = "build_graph [hier_child, ex_b, ex_c]"
  have w: "wf_graph ?g" by (rule wf_build_graph)
  have i: "concept_id upsert_a = ''a''" by (simp add: upsert_a_def mk_concept_def)
  have n: "has_node (update_concept ?g upsert_a) ''b''" "has_node (update_concept ?g upsert_a) ''c''"
    by (simp_all add: has_node_update_concept has_node_build_graph ex_b_def ex_c_def mk_concept_def)
  have d: "derived_rel upsert_a (has_node (update_concept ?g upsert_a)) ''a'' ''b'' = Some ''narrower''"
    "derived_rel upsert_a (has_node (update_concept ?g upsert_a)) ''b'' ''a'' = Some ''broader''"
    "derived_rel upsert_a (has_node (update_concept ?g upsert_a)) ''a'' ''c'' = Some ''prerequisite''"
    "derived_rel upsert_a (has_node (update_concept ?g upsert_a)) ''c'' ''a'' = None"
    using n by (simp_all add: derived_rel_def upsert_a_def mk_concept_def)
  have e: "edge_rel ?g ''c'' ''b'' = Some ''related''" by code_simp
  show ?thesis
    using upsert_replaces_incident_edges[OF w, of upsert_a] w d e unfolding i by simp
qed

section \<open>Index engine (graph/indexer.py)\<close>

text \<open>
  \<^verbatim>\<open>relation_index\<close> is a dictionary from relation type to a dictionary from source id to
  the list of target ids. \<^verbatim>\<open>_build_relation_index\<close> starts from the four relation types,
  each with an empty dictionary, and walks \<^verbatim>\<open>G.edges(data=True)\<close>.
\<close>

type_synonym relation_index = "(string \<times> (string \<times> string list) list) list"

definition empty_relation_index :: relation_index where
  "empty_relation_index =
     [(''broader'', []), (''narrower'', []), (''related'', []), (''prerequisite'', [])]"

definition index_edge :: "(string \<times> string) \<times> string \<Rightarrow> relation_index \<Rightarrow> relation_index" where
  "index_edge e idx =
     (let source = fst (fst e); target = snd (fst e); relation_type = snd e
      in if map_of idx relation_type \<noteq> None
         then AList.map_entry relation_type
                (\<lambda>m. let m1 = (if map_of m source = None then AList.update source [] m else m)
                     in AList.map_entry source (\<lambda>l. l @ [target]) m1)
                idx
         else idx)"

definition build_relation_index :: "digraph \<Rightarrow> relation_index" where
  "build_relation_index g = fold index_edge (edges g) empty_relation_index"

definition get_related_concepts :: "relation_index \<Rightarrow> string \<Rightarrow> string \<Rightarrow> string list" where
  "get_related_concepts idx cid relation_type =
     (case map_of idx relation_type of
        None \<Rightarrow> []
      | Some m \<Rightarrow> (case map_of m cid of None \<Rightarrow> [] | Some l \<Rightarrow> l))"

text \<open>The successors of a source under one relation type, in the order of the edge dictionary.\<close>

definition successors :: "digraph \<Rightarrow> string \<Rightarrow> string \<Rightarrow> string list" where
  "successors g s rt =
     map (\<lambda>e. snd (fst e)) (filter (\<lambda>e. fst (fst e) = s \<and> snd e = rt) (edge_tbl g))"

lemma map_of_index_edge_None:
  "(map_of (index_edge e idx) rt = None) = (map_of idx rt = None)"
  by (auto simp: index_edge_def Let_def AList.map_of_map_entry split: option.splits)

lemma get_related_index_edge:
  "get_related_concepts (index_edge e idx) s rt =
     (if snd e = rt \<and> fst (fst e) = s \<and> map_of idx rt \<noteq> None
      then get_related_concepts idx s rt @ [snd (fst e)]
      else get_related_concepts idx s rt)"
  by (auto simp: get_related_concepts_def index_edge_def Let_def AList.map_of_map_entry
      AList.update_conv' split: option.splits)

lemma get_related_fold_index_edge:
  "map_of idx rt \<noteq> None \<Longrightarrow>
     get_related_concepts (fold index_edge es idx) s rt =
       get_related_concepts idx s rt @
       map (\<lambda>e. snd (fst e)) (filter (\<lambda>e. fst (fst e) = s \<and> snd e = rt) es)"
proof (induction es arbitrary: idx)
  case Nil
  then show ?case by simp
next
  case (Cons e es)
  have "map_of (index_edge e idx) rt \<noteq> None"
    using Cons.prems by (simp add: map_of_index_edge_None)
  from Cons.IH[OF this] show ?case using Cons.prems
    by (simp add: get_related_index_edge)
qed

lemma map_of_fold_index_edge_None:
  "(map_of (fold index_edge es idx) rt = None) = (map_of idx rt = None)"
  by (induction es arbitrary: idx) (simp_all add: map_of_index_edge_None)

definition known_relation :: "string \<Rightarrow> bool" where
  "known_relation rt =
     (rt = ''broader'' \<or> rt = ''narrower'' \<or> rt = ''related'' \<or> rt = ''prerequisite'')"

lemma map_of_empty_relation_index:
  "(map_of empty_relation_index rt = None) = (\<not> known_relation rt)"
  by (auto simp: empty_relation_index_def known_relation_def)

lemma get_related_empty_index: "get_related_concepts empty_relation_index s rt = []"
  by (auto simp: get_related_concepts_def empty_relation_index_def)

lemma concat_select:
  "distinct ids \<Longrightarrow>
     concat (map (\<lambda>u. if u = s then X else []) ids) = (if s \<in> set ids then X else [])"
  by (induction ids) auto

lemma filter_edges_source:
  assumes "wf_graph g"
  shows "filter (\<lambda>e. fst (fst e) = s) (edges g) = filter (\<lambda>e. fst (fst e) = s) (edge_tbl g)"
proof -
  let ?F = "\<lambda>u. filter (\<lambda>e. fst (fst e) = u) (edge_tbl g)"
  have d: "distinct (node_ids g)" using assms by (simp add: wf_graph_def node_ids_def)
  have 1: "filter (\<lambda>e. fst (fst e) = s) (?F u) = (if u = s then ?F s else [])" for u
    by (auto simp: filter_empty_conv)
  have "filter (\<lambda>e. fst (fst e) = s) (edges g) =
      concat (map (\<lambda>u. if u = s then ?F s else []) (node_ids g))"
    unfolding edges_def filter_concat map_map comp_def 1 ..
  also have "\<dots> = (if s \<in> set (node_ids g) then ?F s else [])"
    using d by (rule concat_select)
  also have "\<dots> = ?F s"
  proof (cases "s \<in> set (node_ids g)")
    case True
    then show ?thesis by simp
  next
    case False
    then have "\<not> has_node g s" by (simp add: has_node_def node_ids_def)
    then have "\<forall>e \<in> set (edge_tbl g). fst (fst e) \<noteq> s"
      using assms by (auto simp: wf_graph_def edges_closed_def list_all_iff)
    then show ?thesis using False by (simp add: filter_empty_conv)
  qed
  finally show ?thesis .
qed

lemma successors_edges:
  assumes "wf_graph g"
  shows "map (\<lambda>e. snd (fst e)) (filter (\<lambda>e. fst (fst e) = s \<and> snd e = rt) (edges g)) =
         successors g s rt"
proof -
  have split: "filter (\<lambda>e. fst (fst e) = s \<and> snd e = rt) xs =
        filter (\<lambda>e. snd e = rt) (filter (\<lambda>e. fst (fst e) = s) xs)"
    for xs :: "((string \<times> string) \<times> string) list"
    by (induction xs) auto
  show ?thesis unfolding successors_def split filter_edges_source[OF assms] ..
qed

lemma get_related_build_relation_index:
  assumes "wf_graph g"
  shows "get_related_concepts (build_relation_index g) s rt =
     (if known_relation rt then successors g s rt else [])"
proof (cases "known_relation rt")
  case True
  then have "map_of empty_relation_index rt \<noteq> None" by (simp add: map_of_empty_relation_index)
  from get_related_fold_index_edge[OF this, of "edges g" s] show ?thesis
    using True by (simp add: build_relation_index_def get_related_empty_index successors_edges[OF assms])
next
  case False
  then have "map_of (build_relation_index g) rt = None"
    by (simp add: build_relation_index_def map_of_fold_index_edge_None map_of_empty_relation_index)
  then show ?thesis using False by (simp add: get_related_concepts_def)
qed

lemma distinct_successors:
  assumes "distinct (map fst (edge_tbl g))"
  shows "distinct (successors g s rt)"
proof -
  let ?xs = "filter (\<lambda>e. fst (fst e) = s \<and> snd e = rt) (edge_tbl g)"
  have d: "distinct (map fst ?xs)" using assms by (rule distinct_map_filter)
  have i: "inj_on snd (set (map fst ?xs))" by (auto simp: inj_on_def)
  have eq: "successors g s rt = map snd (map fst ?xs)" by (simp add: successors_def)
  show ?thesis unfolding eq using d i by (subst distinct_map) blast
qed

text \<open>
  Claim C10. After an index rebuild from a graph (one edge, with one relation type, per
  ordered pair), every list of the relation index holds each target id at most once.
\<close>

theorem relation_index_lists_distinct:
  assumes "wf_graph g"
  shows "distinct (get_related_concepts (build_relation_index g) s rt)"
  using assms distinct_successors[of g s rt]
  by (simp add: get_related_build_relation_index wf_graph_def)

theorem relation_index_lists_distinct_witness:
  "wf_graph (build_graph [cex_both, ex_b, ex_c]) \<and>
   get_related_concepts (build_relation_index (build_graph [cex_both, ex_b, ex_c])) ''b'' ''related'' =
     [''a'', ''c''] \<and>
   distinct (get_related_concepts (build_relation_index (build_graph [cex_both, ex_b, ex_c]))
     ''b'' ''related'')"
proof -
  have 1: "get_related_concepts (build_relation_index (build_graph [cex_both, ex_b, ex_c]))
     ''b'' ''related'' = [''a'', ''c'']"
    by code_simp
  show ?thesis
    using relation_index_lists_distinct[OF wf_build_graph, of "[cex_both, ex_b, ex_c]" "''b''" "''related''"]
      wf_build_graph[of "[cex_both, ex_b, ex_c]"] 1
    by simp
qed

section \<open>Query engine: context expansion (graph/query.py)\<close>

text \<open>
  The dictionaries that \<^verbatim>\<open>expand_context\<close> builds are records. A concept summary holds
  the keys \<^verbatim>\<open>id\<close>, \<^verbatim>\<open>prefLabel\<close>, \<^verbatim>\<open>definition\<close>; a context note the keys \<^verbatim>\<open>id\<close>, \<^verbatim>\<open>label\<close>,
  \<^verbatim>\<open>content\<close>, \<^verbatim>\<open>file_path\<close>. In the response the keys \<^verbatim>\<open>content\<close> of the focus and
  \<^verbatim>\<open>context_notes\<close> are present only when content was requested.
\<close>

record concept_summary =
  cs_id :: string
  cs_prefLabel :: string
  cs_definition :: "string option"

record context_note =
  cn_id :: string
  cn_label :: string
  cn_content :: string
  cn_file_path :: string

record focus_summary =
  fc_id :: string
  fc_uri :: string
  fc_prefLabel :: string
  fc_definition :: "string option"
  fc_file_path :: string
  fc_content :: "string option"

record expand_response =
  focus_concept :: focus_summary
  direct_relations :: "(string \<times> concept_summary list) list"
  transitive_relations :: "(string \<times> concept_summary list) list"
  context_notes :: "context_note list option"

text \<open>
  The state of the traversal loop. A queue entry is the triple
  \<^verbatim>\<open>(current_id, depth, from_relation)\<close>.
\<close>

record bfs_state =
  visited :: "string set"
  direct :: "(string \<times> concept_summary list) list"
  transitive :: "(string \<times> concept_summary list) list"
  note_list :: "context_note list"
  queue :: "(string \<times> int \<times> string option) list"

text \<open>\<^verbatim>\<open>{rt: [] for rt in relation_types}\<close>\<close>

definition init_relations :: "string list \<Rightarrow> (string \<times> concept_summary list) list" where
  "init_relations relation_types = fold (\<lambda>rt d. AList.update rt [] d) relation_types []"

text \<open>\<^verbatim>\<open>d[k].append(v)\<close>; the key is always present where the program does this.\<close>

definition append_to ::
  "(string \<times> concept_summary list) list \<Rightarrow> string \<Rightarrow> concept_summary \<Rightarrow>
   (string \<times> concept_summary list) list" where
  "append_to d k v = AList.map_entry k (\<lambda>l. l @ [v]) d"

text \<open>
  The body of the innermost loop for one \<^verbatim>\<open>related_id\<close>. \<^verbatim>\<open>if not related_concept: continue\<close>
  skips an id that is not a node and a node with an empty attribute dictionary, after the
  id has been marked visited.
\<close>

definition visit :: "digraph \<Rightarrow> bool \<Rightarrow> int \<Rightarrow> string \<Rightarrow> string \<Rightarrow> bfs_state \<Rightarrow> bfs_state" where
  "visit g include_content depth relation_type related_id s =
     (if related_id \<in> visited s then s
      else
        let s1 = s\<lparr>visited := insert related_id (visited s)\<rparr>
        in case get_concept g related_id of
             Some (Some related_concept) \<Rightarrow>
               let concept_summary =
                     \<lparr>cs_id = related_id, cs_prefLabel = pref_label related_concept,
                      cs_definition = skos_definition related_concept\<rparr>;
                   s2 = (if depth = 0
                         then s1\<lparr>direct := append_to (direct s1) relation_type concept_summary\<rparr>
                         else s1\<lparr>transitive :=
                                  append_to (transitive s1) relation_type concept_summary\<rparr>);
                   s3 = (if include_content
                         then s2\<lparr>note_list := note_list s2 @
                                  [\<lparr>cn_id = related_id, cn_label = pref_label related_concept,
                                    cn_content = content related_concept,
                                    cn_file_path = file_path related_concept\<rparr>]\<rparr>
                         else s2)
               in s3\<lparr>queue := queue s3 @ [(related_id, depth + 1, Some relation_type)]\<rparr>
           | _ \<Rightarrow> s1)"

definition explore ::
  "digraph \<Rightarrow> relation_index \<Rightarrow> string list \<Rightarrow> bool \<Rightarrow> string \<Rightarrow> int \<Rightarrow> bfs_state \<Rightarrow> bfs_state" where
  "explore g idx relation_types include_content current_id depth s =
     fold (\<lambda>relation_type s'.
             fold (visit g include_content depth relation_type)
               (get_related_concepts idx current_id relation_type) s')
       relation_types s"

text \<open>Every id stored in a relation index, as a target.\<close>

definition index_targets :: "relation_index \<Rightarrow> string list" where
  "index_targets idx = concat (map (\<lambda>p. concat (map snd (snd p))) idx)"

definition bfs_measure :: "relation_index \<Rightarrow> bfs_state \<Rightarrow> nat" where
  "bfs_measure idx s = card (set (index_targets idx) - visited s) + length (queue s)"

lemma get_related_subset:
  "set (get_related_concepts idx cid rt) \<subseteq> set (index_targets idx)"
proof (cases "map_of idx rt")
  case None
  then show ?thesis by (simp add: get_related_concepts_def)
next
  case (Some m)
  show ?thesis
  proof (cases "map_of m cid")
    case None
    then show ?thesis using Some by (simp add: get_related_concepts_def)
  next
    case l: (Some l)
    have 1: "(rt, m) \<in> set idx" using Some by (rule map_of_SomeD)
    have 2: "(cid, l) \<in> set m" using l by (rule map_of_SomeD)
    have "set l \<subseteq> set (index_targets idx)"
      using 1 2
      by (auto simp: index_targets_def intro!: bexI[of _ "(rt, m)"] bexI[of _ "(cid, l)"])
    then show ?thesis using Some l by (simp add: get_related_concepts_def)
  qed
qed

lemma bfs_measure_visit:
  assumes "r \<in> set (index_targets idx)"
  shows "bfs_measure idx (visit g ic d rt r s) \<le> bfs_measure idx s"
proof (cases "r \<in> visited s")
  case True
  then show ?thesis by (simp add: visit_def)
next
  case False
  let ?U = "set (index_targets idx)"
  have "r \<in> ?U - visited s" using assms False by simp
  then have c: "card (?U - insert r (visited s)) + 1 = card (?U - visited s)"
    by (metis Diff_insert List.finite_set One_nat_def add.commute card_Suc_Diff1 finite_Diff
        plus_1_eq_Suc)
  show ?thesis using False c
    by (auto simp: visit_def bfs_measure_def Let_def split: option.splits)
qed

lemma bfs_measure_fold_visit:
  "set rs \<subseteq> set (index_targets idx) \<Longrightarrow>
     bfs_measure idx (fold (visit g ic d rt) rs s) \<le> bfs_measure idx s"
proof (induction rs arbitrary: s)
  case Nil
  then show ?case by simp
next
  case (Cons r rs)
  have "bfs_measure idx (fold (visit g ic d rt) rs (visit g ic d rt r s))
      \<le> bfs_measure idx (visit g ic d rt r s)"
    using Cons by simp
  also have "\<dots> \<le> bfs_measure idx s" using Cons.prems by (simp add: bfs_measure_visit)
  finally show ?case by simp
qed

lemma bfs_measure_explore:
  "bfs_measure idx (explore g idx rts ic cur d s) \<le> bfs_measure idx s"
  unfolding explore_def
proof (induction rts arbitrary: s)
  case Nil
  then show ?case by simp
next
  case (Cons rt rts)
  let ?s1 = "fold (visit g ic d rt) (get_related_concepts idx cur rt) s"
  have "bfs_measure idx ?s1 \<le> bfs_measure idx s"
    by (rule bfs_measure_fold_visit) (rule get_related_subset)
  then show ?case using Cons[of ?s1] by simp
qed

lemma bfs_measure_pop:
  "queue s = x # rest \<Longrightarrow> bfs_measure idx (s\<lparr>queue := rest\<rparr>) < bfs_measure idx s"
  by (simp add: bfs_measure_def)

lemma bfs_measure_step:
  assumes "queue s = x # rest"
  shows "bfs_measure idx (explore g idx rts ic cur d (s\<lparr>queue := rest\<rparr>)) < bfs_measure idx s"
proof -
  have "bfs_measure idx (explore g idx rts ic cur d (s\<lparr>queue := rest\<rparr>))
      \<le> bfs_measure idx (s\<lparr>queue := rest\<rparr>)"
    by (rule bfs_measure_explore)
  also have "\<dots> < bfs_measure idx s" using assms by (rule bfs_measure_pop)
  finally show ?thesis .
qed

text \<open>
  The \<^verbatim>\<open>while queue\<close> loop. It ends because every entry added to the queue marks an id
  of the relation index as visited for the first time.
\<close>

function bfs_loop ::
  "digraph \<Rightarrow> relation_index \<Rightarrow> string list \<Rightarrow> int \<Rightarrow> bool \<Rightarrow> bfs_state \<Rightarrow> bfs_state" where
  "bfs_loop g idx relation_types max_depth include_content s =
     (case queue s of
        [] \<Rightarrow> s
      | (current_id, depth, from_relation) # rest \<Rightarrow>
          if depth \<ge> max_depth
          then bfs_loop g idx relation_types max_depth include_content (s\<lparr>queue := rest\<rparr>)
          else bfs_loop g idx relation_types max_depth include_content
                 (explore g idx relation_types include_content current_id depth
                    (s\<lparr>queue := rest\<rparr>)))"
  by pat_completeness auto
termination
  by (relation "measure (\<lambda>(g, idx, rts, md, ic, s). bfs_measure idx s)")
     (auto simp: bfs_measure_pop bfs_measure_step)

declare bfs_loop.simps [simp del]

definition not_found_message :: "string \<Rightarrow> string" where
  "not_found_message cid = ''Concept '' @ [CHR 0x27] @ cid @ [CHR 0x27] @ '' not found''"

text \<open>
  \<^verbatim>\<open>expand_context\<close>. The result \<^verbatim>\<open>{"error": ...}\<close> is \<open>Inl\<close> of the message, the response
  dictionary is \<open>Inr\<close>. \<^verbatim>\<open>if not focus_concept\<close> holds for an id that is not a node and
  for a node with an empty attribute dictionary.
\<close>

definition expand_context ::
  "digraph \<Rightarrow> relation_index \<Rightarrow> string \<Rightarrow> string list option \<Rightarrow> int \<Rightarrow> bool \<Rightarrow>
   string + expand_response" where
  "expand_context g idx cid relation_types_arg max_depth include_content =
     (let relation_types =
            (case relation_types_arg of
               None \<Rightarrow> [''broader'', ''narrower'', ''related'']
             | Some rts \<Rightarrow> rts)
      in case get_concept g cid of
           Some (Some fc) \<Rightarrow>
             let s = bfs_loop g idx relation_types max_depth include_content
                       \<lparr>visited = {cid}, direct = init_relations relation_types,
                        transitive = init_relations relation_types, note_list = [],
                        queue = [(cid, 0, None)]\<rparr>
             in Inr \<lparr>focus_concept =
                       \<lparr>fc_id = cid, fc_uri = uri fc, fc_prefLabel = pref_label fc,
                        fc_definition = skos_definition fc, fc_file_path = file_path fc,
                        fc_content = (if include_content then Some (content fc) else None)\<rparr>,
                     direct_relations = direct s,
                     transitive_relations = transitive s,
                     context_notes = (if include_content then Some (note_list s) else None)\<rparr>
         | _ \<Rightarrow> Inl (not_found_message cid))"


text \<open>The ids recorded in a relations dictionary, and in both dictionaries of a state.\<close>

definition ids_of :: "(string \<times> concept_summary list) list \<Rightarrow> string list" where
  "ids_of d = concat (map (\<lambda>p. map cs_id (snd p)) d)"

definition recorded :: "bfs_state \<Rightarrow> string list" where
  "recorded s = ids_of (direct s) @ ids_of (transitive s)"

definition once_inv :: "string \<Rightarrow> bfs_state \<Rightarrow> bool" where
  "once_inv x s =
     (distinct (recorded s) \<and> set (recorded s) \<subseteq> visited s - {x} \<and> x \<in> visited s)"

lemma set_ids_of_append_to:
  "set (ids_of (append_to d k v)) \<subseteq> insert (cs_id v) (set (ids_of d))"
  by (induction d) (auto simp: ids_of_def append_to_def)

lemma distinct_ids_of_append_to:
  "distinct (ids_of d) \<Longrightarrow> cs_id v \<notin> set (ids_of d) \<Longrightarrow> distinct (ids_of (append_to d k v))"
proof (induction d)
  case Nil
  then show ?case by (simp add: ids_of_def append_to_def)
next
  case (Cons p d)
  show ?case
  proof (cases "fst p = k")
    case True
    then show ?thesis using Cons.prems by (auto simp: ids_of_def append_to_def)
  next
    case False
    have d: "distinct (ids_of d)" and n: "cs_id v \<notin> set (ids_of d)"
      using Cons.prems by (auto simp: ids_of_def)
    have sub: "set (ids_of (append_to d k v)) \<subseteq> insert (cs_id v) (set (ids_of d))"
      by (rule set_ids_of_append_to)
    have ih: "distinct (ids_of (append_to d k v))" using Cons.IH d n by simp
    have e: "ids_of (append_to (p # d) k v) = map cs_id (snd p) @ ids_of (append_to d k v)"
      using False by (simp add: ids_of_def append_to_def)
    have f: "ids_of (p # d) = map cs_id (snd p) @ ids_of d" by (simp add: ids_of_def)
    have "a \<notin> set (ids_of (append_to d k v))" if a: "a \<in> set (map cs_id (snd p))" for a
    proof -
      have n1: "cs_id v \<notin> set (map cs_id (snd p))"
        using Cons.prems(2) unfolding f by (simp only: set_append Un_iff; blast)
      have dj: "set (map cs_id (snd p)) \<inter> set (ids_of d) = {}"
        using Cons.prems(1) unfolding f by (simp only: distinct_append; blast)
      have "a \<noteq> cs_id v" using a n1 by blast
      moreover have "a \<notin> set (ids_of d)" using a dj by blast
      ultimately show ?thesis using sub by blast
    qed
    then have "set (map cs_id (snd p)) \<inter> set (ids_of (append_to d k v)) = {}" by blast
    moreover have "distinct (map cs_id (snd p))"
      using Cons.prems(1) unfolding f by (simp only: distinct_append; blast)
    ultimately show ?thesis unfolding e using ih by simp
  qed
qed

lemma once_inv_record_direct:
  assumes "once_inv x s" "r \<notin> visited s" "cs_id v = r"
  shows "once_inv x (s\<lparr>visited := insert r (visited s), direct := append_to (direct s) k v\<rparr>)"
proof -
  have r: "r \<notin> set (ids_of (direct s))" "r \<notin> set (ids_of (transitive s))" "r \<noteq> x"
    using assms(1,2) by (auto simp: once_inv_def recorded_def)
  have d: "distinct (ids_of (append_to (direct s) k v))"
    using assms(1,3) r by (intro distinct_ids_of_append_to) (auto simp: once_inv_def recorded_def)
  have sub: "set (ids_of (append_to (direct s) k v)) \<subseteq> insert r (set (ids_of (direct s)))"
    using set_ids_of_append_to[of "direct s" k v] assms(3) by simp
  show ?thesis
    using assms(1) r d sub unfolding once_inv_def recorded_def by auto
qed

lemma once_inv_record_transitive:
  assumes "once_inv x s" "r \<notin> visited s" "cs_id v = r"
  shows "once_inv x (s\<lparr>visited := insert r (visited s),
           transitive := append_to (transitive s) k v\<rparr>)"
proof -
  have r: "r \<notin> set (ids_of (direct s))" "r \<notin> set (ids_of (transitive s))" "r \<noteq> x"
    using assms(1,2) by (auto simp: once_inv_def recorded_def)
  have d: "distinct (ids_of (append_to (transitive s) k v))"
    using assms(1,3) r by (intro distinct_ids_of_append_to) (auto simp: once_inv_def recorded_def)
  have sub: "set (ids_of (append_to (transitive s) k v)) \<subseteq> insert r (set (ids_of (transitive s)))"
    using set_ids_of_append_to[of "transitive s" k v] assms(3) by simp
  show ?thesis
    using assms(1) r d sub unfolding once_inv_def recorded_def by auto
qed

lemma once_inv_mark:
  "once_inv x s \<Longrightarrow> once_inv x (s\<lparr>visited := insert r (visited s)\<rparr>)"
  by (auto simp: once_inv_def recorded_def)

lemma once_inv_cong:
  "once_inv x s \<Longrightarrow> visited s' = visited s \<Longrightarrow> direct s' = direct s \<Longrightarrow>
     transitive s' = transitive s \<Longrightarrow> once_inv x s'"
  by (simp add: once_inv_def recorded_def)

lemma once_inv_visit:
  assumes "once_inv x s"
  shows "once_inv x (visit g ic d rt r s)"
proof (cases "r \<in> visited s")
  case True
  then show ?thesis using assms by (simp add: visit_def)
next
  case False
  show ?thesis
  proof (cases "get_concept g r")
    case None
    then show ?thesis using False assms by (simp add: visit_def once_inv_mark)
  next
    case (Some nd)
    show ?thesis
    proof (cases nd)
      case None
      then show ?thesis using Some False assms by (simp add: visit_def once_inv_mark)
    next
      case c: (Some rc)
      let ?v = "\<lparr>cs_id = r, cs_prefLabel = pref_label rc, cs_definition = skos_definition rc\<rparr>"
      show ?thesis
      proof (cases "d = 0")
        case True
        have "once_inv x (s\<lparr>visited := insert r (visited s), direct := append_to (direct s) rt ?v\<rparr>)"
          using assms False by (rule once_inv_record_direct) simp
        then show ?thesis
          by (rule once_inv_cong) (use Some c False True in \<open>simp_all add: visit_def Let_def\<close>)
      next
        case nz: False
        have "once_inv x (s\<lparr>visited := insert r (visited s),
            transitive := append_to (transitive s) rt ?v\<rparr>)"
          using assms False by (rule once_inv_record_transitive) simp
        then show ?thesis
          by (rule once_inv_cong) (use Some c False nz in \<open>simp_all add: visit_def Let_def\<close>)
      qed
    qed
  qed
qed

lemma once_inv_explore: "once_inv x s \<Longrightarrow> once_inv x (explore g idx rts ic cur d s)"
  unfolding explore_def
  by (rule fold_invariant, assumption, rule fold_invariant, assumption, rule once_inv_visit)

lemma once_inv_bfs_loop: "once_inv x s \<Longrightarrow> once_inv x (bfs_loop g idx rts md ic s)"
proof (induction g idx rts md ic s rule: bfs_loop.induct)
  case (1 g idx rts md ic s)
  show ?case
  proof (cases "queue s")
    case Nil
    then show ?thesis using "1.prems" by (subst bfs_loop.simps) simp
  next
    case (Cons e rest)
    obtain cur d fr where e: "e = (cur, d, fr)" by (cases e)
    have p: "once_inv x (s\<lparr>queue := rest\<rparr>)"
      using "1.prems" by (rule once_inv_cong) simp_all
    show ?thesis
    proof (cases "d \<ge> md")
      case True
      have "once_inv x (bfs_loop g idx rts md ic (s\<lparr>queue := rest\<rparr>))"
        using "1.IH"(1)[OF Cons e[symmetric] refl True p] by simp
      then show ?thesis using Cons e True by (subst bfs_loop.simps) simp
    next
      case False
      have "once_inv x (bfs_loop g idx rts md ic (explore g idx rts ic cur d (s\<lparr>queue := rest\<rparr>)))"
        using "1.IH"(2)[OF Cons e[symmetric] refl False once_inv_explore[OF p]] by simp
      then show ?thesis using Cons e False by (subst bfs_loop.simps) simp
    qed
  qed
qed

lemma list_all_update:
  "list_all P d \<Longrightarrow> P (k, v) \<Longrightarrow> list_all P (AList.update k v d)"
  by (induction d) auto

lemma init_relations_empty_lists: "list_all (\<lambda>p. snd p = []) (init_relations rts)"
  unfolding init_relations_def
  by (rule fold_invariant) (simp_all add: list_all_update)

lemma ids_of_Cons: "ids_of (p # d) = map cs_id (snd p) @ ids_of d"
  by (simp add: ids_of_def)

lemma ids_of_empty_lists: "list_all (\<lambda>p. snd p = []) d \<Longrightarrow> ids_of d = []"
proof (induction d)
  case Nil
  show ?case by (simp add: ids_of_def)
next
  case (Cons p d)
  have 1: "snd p = []" and 2: "list_all (\<lambda>p. snd p = []) d" using Cons.prems by simp_all
  have 3: "ids_of d = []" using Cons.IH 2 by blast
  show ?case unfolding ids_of_Cons 1 3 by simp
qed

lemma ids_of_init_relations: "ids_of (init_relations rts) = []"
  by (rule ids_of_empty_lists) (rule init_relations_empty_lists)

lemma once_inv_init:
  "once_inv x \<lparr>visited = {x}, direct = init_relations rts, transitive = init_relations rts,
      note_list = [], queue = [(x, 0, None)]\<rparr>"
  by (simp add: once_inv_def recorded_def ids_of_init_relations)

text \<open>
  Claim C9. \<^verbatim>\<open>expand_context\<close> is a total function: its loop is defined by well-founded
  recursion on the number of unvisited ids of the relation index plus the queue length,
  for every graph and every index, cyclic or not. In every response each concept other
  than the focus appears at most once across all direct and transitive relation lists,
  and the focus never appears.
\<close>

theorem expand_context_records_once:
  assumes "expand_context g idx x rts md ic = Inr r"
  shows "distinct (ids_of (direct_relations r) @ ids_of (transitive_relations r)) \<and>
         x \<notin> set (ids_of (direct_relations r) @ ids_of (transitive_relations r))"
proof -
  let ?rts = "case rts of None \<Rightarrow> [''broader'', ''narrower'', ''related''] | Some l \<Rightarrow> l"
  let ?s = "bfs_loop g idx ?rts md ic
      \<lparr>visited = {x}, direct = init_relations ?rts, transitive = init_relations ?rts,
       note_list = [], queue = [(x, 0, None)]\<rparr>"
  have inv: "once_inv x ?s" by (rule once_inv_bfs_loop) (rule once_inv_init)
  have "direct_relations r = direct ?s \<and> transitive_relations r = transitive ?s"
    using assms by (auto simp: expand_context_def Let_def split: option.splits)
  then show ?thesis using inv by (auto simp: once_inv_def recorded_def)
qed


theorem expand_context_records_once_witness:
  "\<not> isl (expand_context (build_graph [hier_child, ex_b, ex_c])
            (build_relation_index (build_graph [hier_child, ex_b, ex_c])) ''a'' None 2 True) \<and>
   ids_of (direct_relations (projr (expand_context (build_graph [hier_child, ex_b, ex_c])
            (build_relation_index (build_graph [hier_child, ex_b, ex_c])) ''a'' None 2 True))) @
   ids_of (transitive_relations (projr (expand_context (build_graph [hier_child, ex_b, ex_c])
            (build_relation_index (build_graph [hier_child, ex_b, ex_c])) ''a'' None 2 True))) =
     [''b'', ''c''] \<and>
   edge_rel (build_graph [hier_child, ex_b, ex_c]) ''a'' ''b'' = Some ''broader'' \<and>
   edge_rel (build_graph [hier_child, ex_b, ex_c]) ''b'' ''a'' = Some ''narrower''"
proof -
  let ?E = "expand_context (build_graph [hier_child, ex_b, ex_c])
            (build_relation_index (build_graph [hier_child, ex_b, ex_c])) ''a'' None 2 True"
  have 1: "\<not> isl ?E" by code_simp
  then obtain r where r: "?E = Inr r" by (cases ?E) auto
  have 2: "ids_of (direct_relations (projr ?E)) @ ids_of (transitive_relations (projr ?E)) =
      [''b'', ''c'']"
    by code_simp
  have 3: "edge_rel (build_graph [hier_child, ex_b, ex_c]) ''a'' ''b'' = Some ''broader'' \<and>
     edge_rel (build_graph [hier_child, ex_b, ex_c]) ''b'' ''a'' = Some ''narrower''"
    by code_simp
  from expand_context_records_once[OF r] show ?thesis using 1 2 3 by simp
qed

section \<open>Context expansion: depth bound and unknown relation types\<close>

lemma bfs_loop_Nil: "queue s = [] \<Longrightarrow> bfs_loop g idx rts md ic s = s"
  by (subst bfs_loop.simps) simp

lemma bfs_loop_skip:
  "queue s = (cur, d, fr) # rest \<Longrightarrow> md \<le> d \<Longrightarrow>
     bfs_loop g idx rts md ic s = bfs_loop g idx rts md ic (s\<lparr>queue := rest\<rparr>)"
  by (subst bfs_loop.simps) simp

lemma bfs_loop_expand:
  "queue s = (cur, d, fr) # rest \<Longrightarrow> \<not> md \<le> d \<Longrightarrow>
     bfs_loop g idx rts md ic s =
       bfs_loop g idx rts md ic (explore g idx rts ic cur d (s\<lparr>queue := rest\<rparr>))"
  by (subst bfs_loop.simps) simp

lemma bfs_loop_skip_all:
  "queue s = q \<Longrightarrow> list_all (\<lambda>e. md \<le> fst (snd e)) q \<Longrightarrow>
     bfs_loop g idx rts md ic s = s\<lparr>queue := []\<rparr>"
proof (induction q arbitrary: s)
  case Nil
  then show ?case by (simp add: bfs_loop_Nil)
next
  case (Cons e q)
  obtain cur d fr where e: "e = (cur, d, fr)" by (cases e)
  have d: "md \<le> d" using Cons.prems(2) e by simp
  have "bfs_loop g idx rts md ic s = bfs_loop g idx rts md ic (s\<lparr>queue := q\<rparr>)"
    using Cons.prems(1) e d by (simp add: bfs_loop_skip)
  also have "\<dots> = (s\<lparr>queue := q\<rparr>)\<lparr>queue := []\<rparr>"
    using Cons.prems(2) by (intro Cons.IH) simp_all
  finally show ?case by simp
qed

lemma explore_no_successors:
  "list_all (\<lambda>rt. get_related_concepts idx cur rt = []) rts \<Longrightarrow>
     explore g idx rts ic cur d s = s"
  unfolding explore_def by (induction rts arbitrary: s) simp_all

text \<open>The start state of the traversal.\<close>

definition init_state :: "string \<Rightarrow> string list \<Rightarrow> bfs_state" where
  "init_state cid relation_types =
     \<lparr>visited = {cid}, direct = init_relations relation_types,
      transitive = init_relations relation_types, note_list = [], queue = [(cid, 0, None)]\<rparr>"

text \<open>\<^verbatim>\<open>relation_types\<close> after the default has been filled in.\<close>

definition relation_types_of :: "string list option \<Rightarrow> string list" where
  "relation_types_of arg =
     (case arg of None \<Rightarrow> [''broader'', ''narrower'', ''related''] | Some rts \<Rightarrow> rts)"

lemma expand_context_found:
  assumes "get_concept g x = Some (Some fc)"
  shows "\<exists>r. expand_context g idx x arg md ic = Inr r \<and>
     direct_relations r = direct (bfs_loop g idx (relation_types_of arg) md ic
        (init_state x (relation_types_of arg))) \<and>
     transitive_relations r = transitive (bfs_loop g idx (relation_types_of arg) md ic
        (init_state x (relation_types_of arg)))"
  using assms by (simp add: expand_context_def Let_def init_state_def relation_types_of_def)

lemma expand_context_isl:
  "isl (expand_context g idx x arg md ic) =
     (get_concept g x = None \<or> get_concept g x = Some None)"
  by (simp add: expand_context_def Let_def split: option.splits)

lemma bfs_loop_depth_le0:
  "md \<le> 0 \<Longrightarrow> bfs_loop g idx rts md ic (init_state x rts) = (init_state x rts)\<lparr>queue := []\<rparr>"
  by (rule bfs_loop_skip_all[where q = "[(x, 0, None)]"]) (simp_all add: init_state_def)

lemma bfs_loop_no_successors:
  assumes "list_all (\<lambda>rt. get_related_concepts idx x rt = []) rts"
  shows "bfs_loop g idx rts md ic (init_state x rts) = (init_state x rts)\<lparr>queue := []\<rparr>"
proof (cases "md \<le> 0")
  case True
  then show ?thesis by (rule bfs_loop_depth_le0)
next
  case False
  have q: "queue (init_state x rts) = (x, 0, None) # []" by (simp add: init_state_def)
  have "bfs_loop g idx rts md ic (init_state x rts) =
      bfs_loop g idx rts md ic (explore g idx rts ic x 0 ((init_state x rts)\<lparr>queue := []\<rparr>))"
    using q False by (rule bfs_loop_expand)
  also have "\<dots> = bfs_loop g idx rts md ic ((init_state x rts)\<lparr>queue := []\<rparr>)"
    using assms by (simp add: explore_no_successors)
  also have "\<dots> = (init_state x rts)\<lparr>queue := []\<rparr>" by (rule bfs_loop_Nil) simp
  finally show ?thesis .
qed

lemma get_related_unknown:
  "\<not> known_relation rt \<Longrightarrow> get_related_concepts (build_relation_index g) s rt = []"
proof -
  assume "\<not> known_relation rt"
  then have "map_of (build_relation_index g) rt = None"
    by (simp add: build_relation_index_def map_of_fold_index_edge_None map_of_empty_relation_index)
  then show ?thesis by (simp add: get_related_concepts_def)
qed

text \<open>
  Claim C6, as amended. The query operations have no InvalidArgument outcome. For a
  relation-type name outside the four known ones \<^verbatim>\<open>get_related_concepts\<close> returns the empty
  list; \<^verbatim>\<open>expand_context\<close> on an existing concept with a negative depth, or with only
  unknown relation types, returns an ordinary response whose direct and transitive lists
  are all empty; and \<^verbatim>\<open>expand_context\<close> returns its error result exactly when the focus
  concept is not found.
\<close>

theorem malformed_arguments_give_empty_success:
  "(\<not> known_relation rt \<longrightarrow> get_related_concepts (build_relation_index g) s rt = []) \<and>
   (get_concept g x = Some (Some fc) \<and>
      (md < 0 \<or> list_all (\<lambda>rt. \<not> known_relation rt) (relation_types_of arg)) \<longrightarrow>
      (\<exists>r. expand_context g (build_relation_index g) x arg md ic = Inr r \<and>
           direct_relations r = init_relations (relation_types_of arg) \<and>
           transitive_relations r = init_relations (relation_types_of arg) \<and>
           ids_of (direct_relations r) = [] \<and> ids_of (transitive_relations r) = [])) \<and>
   (isl (expand_context g idx x arg md ic) =
      (get_concept g x = None \<or> get_concept g x = Some None))"
proof (intro conjI impI)
  assume "\<not> known_relation rt"
  then show "get_related_concepts (build_relation_index g) s rt = []" by (rule get_related_unknown)
next
  let ?rts = "relation_types_of arg"
  let ?idx = "build_relation_index g"
  assume a: "get_concept g x = Some (Some fc) \<and>
      (md < 0 \<or> list_all (\<lambda>rt. \<not> known_relation rt) ?rts)"
  have fin: "bfs_loop g ?idx ?rts md ic (init_state x ?rts) = (init_state x ?rts)\<lparr>queue := []\<rparr>"
  proof (cases "md < 0")
    case True
    then show ?thesis by (intro bfs_loop_depth_le0) simp
  next
    case False
    then have "list_all (\<lambda>rt. \<not> known_relation rt) ?rts" using a by blast
    then have "list_all (\<lambda>rt. get_related_concepts ?idx x rt = []) ?rts"
      by (simp add: list_all_iff get_related_unknown)
    then show ?thesis by (rule bfs_loop_no_successors)
  qed
  from a expand_context_found[of g x fc ?idx arg md ic]
  obtain r where r: "expand_context g ?idx x arg md ic = Inr r"
    "direct_relations r = direct (bfs_loop g ?idx ?rts md ic (init_state x ?rts))"
    "transitive_relations r = transitive (bfs_loop g ?idx ?rts md ic (init_state x ?rts))"
    by blast
  have "direct_relations r = init_relations ?rts" "transitive_relations r = init_relations ?rts"
    using r(2,3) unfolding fin by (simp_all add: init_state_def)
  then show "\<exists>r. expand_context g ?idx x arg md ic = Inr r \<and>
           direct_relations r = init_relations ?rts \<and>
           transitive_relations r = init_relations ?rts \<and>
           ids_of (direct_relations r) = [] \<and> ids_of (transitive_relations r) = []"
    using r(1) by (simp add: ids_of_init_relations)
next
  show "isl (expand_context g idx x arg md ic) =
      (get_concept g x = None \<or> get_concept g x = Some None)"
    by (rule expand_context_isl)
qed

text \<open>
  Claim C6 as stated fails: with the relation type \<^verbatim>\<open>bogus\<close> and the depth -1 the call
  returns the ordinary response, with an empty list under \<^verbatim>\<open>bogus\<close>, and the index lookup
  returns the empty list.
\<close>

theorem malformed_arguments_not_rejected:
  "\<not> known_relation ''bogus'' \<and>
   get_related_concepts (build_relation_index (build_graph [hier_child, ex_b])) ''a'' ''bogus'' = [] \<and>
   expand_context (build_graph [hier_child, ex_b])
     (build_relation_index (build_graph [hier_child, ex_b])) ''a'' (Some [''bogus'']) (- 1) False =
     Inr \<lparr>focus_concept =
            \<lparr>fc_id = ''a'', fc_uri = ''vault://concepts#a'', fc_prefLabel = ''A'',
             fc_definition = None, fc_file_path = ''.'', fc_content = None\<rparr>,
          direct_relations = [(''bogus'', [])],
          transitive_relations = [(''bogus'', [])],
          context_notes = None\<rparr>"
  by code_simp

theorem malformed_arguments_give_empty_success_witness:
  "\<not> known_relation ''bogus'' \<and>
   get_related_concepts (build_relation_index (build_graph [hier_child, ex_b])) ''a'' ''bogus'' = [] \<and>
   get_concept (build_graph [hier_child, ex_b]) ''a'' = Some (Some hier_child) \<and>
   (- 1 :: int) < 0 \<and>
   \<not> isl (expand_context (build_graph [hier_child, ex_b])
            (build_relation_index (build_graph [hier_child, ex_b])) ''a'' None (- 1) True) \<and>
   direct_relations (projr (expand_context (build_graph [hier_child, ex_b])
            (build_relation_index (build_graph [hier_child, ex_b])) ''a'' None (- 1) True)) =
     init_relations [''broader'', ''narrower'', ''related''] \<and>
   isl (expand_context (build_graph [hier_child, ex_b])
          (build_relation_index (build_graph [hier_child, ex_b])) ''zzz'' None 2 True) \<and>
   get_concept (build_graph [hier_child, ex_b]) ''zzz'' = None"
proof -
  let ?g = "build_graph [hier_child, ex_b]"
  have 1: "\<not> known_relation ''bogus''" by (simp add: known_relation_def)
  have 2: "get_concept ?g ''a'' = Some (Some hier_child)" by code_simp
  have 3: "get_concept ?g ''zzz'' = None" by code_simp
  have 4: "relation_types_of None = [''broader'', ''narrower'', ''related'']"
    by (simp add: relation_types_of_def)
  note T = malformed_arguments_give_empty_success[of "''bogus''" ?g "''a''" "''a''" hier_child
      "- 1" None True "build_relation_index ?g"]
  note U = malformed_arguments_give_empty_success[of "''bogus''" ?g "''a''" "''zzz''" hier_child
      2 None True "build_relation_index ?g"]
  from T 1 2 obtain r where r:
    "expand_context ?g (build_relation_index ?g) ''a'' None (- 1) True = Inr r"
    "direct_relations r = init_relations (relation_types_of None)"
    by auto
  show ?thesis using T U 1 2 3 r unfolding 4 by simp
qed

section \<open>Context expansion to depth one\<close>

































section \<open>Text search (graph/indexer.py)\<close>
























section \<open>Shortest path over the undirected projection (graph/query.py)\<close>

text \<open>
  \<^verbatim>\<open>G.to_undirected()\<close> keeps the nodes and joins u and v when the graph has an edge from u
  to v or from v to u. \<open>neighbors\<close> are the nodes joined to u.
\<close>

definition neighbors :: "digraph \<Rightarrow> string \<Rightarrow> string list" where
  "neighbors g u =
     map (\<lambda>e. snd (fst e)) (filter (\<lambda>e. fst (fst e) = u) (edge_tbl g)) @
     map (\<lambda>e. fst (fst e)) (filter (\<lambda>e. snd (fst e) = u) (edge_tbl g))"

definition adjacent :: "digraph \<Rightarrow> (string \<times> string) set" where
  "adjacent g = {(u, v). v \<in> set (neighbors g u)}"

text \<open>Connected in the undirected projection: joined by a chain of edges, direction ignored.\<close>

definition linked :: "digraph \<Rightarrow> string \<Rightarrow> string \<Rightarrow> bool" where
  "linked g a b = ((a, b) \<in> (adjacent g)\<^sup>*)"

definition edge_ends :: "digraph \<Rightarrow> string list" where
  "edge_ends g = concat (map (\<lambda>e. [fst (fst e), snd (fst e)]) (edge_tbl g))"

lemma neighbors_subset: "set (neighbors g u) \<subseteq> set (edge_ends g)"
  by (auto simp: neighbors_def edge_ends_def)

lemma card_unseen:
  assumes "set new \<subseteq> U" "set new \<inter> seen = {}" "distinct new" "finite U"
  shows "card (U - (seen \<union> set new)) + length new = card (U - seen)"
proof -
  have s: "set new \<subseteq> U - seen" using assms(1,2) by blast
  have "U - (seen \<union> set new) = (U - seen) - set new" by blast
  then have "card (U - (seen \<union> set new)) = card (U - seen) - card (set new)"
    using s by (simp add: card_Diff_subset)
  moreover have "card (set new) \<le> card (U - seen)"
    using s assms(4) by (intro card_mono) simp_all
  moreover have "card (set new) = length new" using assms(3) by (rule distinct_card)
  ultimately show ?thesis by simp
qed

text \<open>
  \<^verbatim>\<open>networkx.shortest_path\<close> on an unweighted graph is a breadth-first search; the library
  raises \<^verbatim>\<open>NetworkXNoPath\<close> when the target is not reached. The search below carries with
  every queued node the path that reached it and returns the reached nodes with their
  paths, in the order of discovery; which of several shortest paths the library returns
  is not modelled.
\<close>

function bfs_paths ::
  "digraph \<Rightarrow> (string \<times> string list) list \<Rightarrow> string set \<Rightarrow> (string \<times> string list) list" where
  "bfs_paths g [] seen = []"
| "bfs_paths g ((u, p) # rest) seen =
     (u, p) #
     bfs_paths g
       (rest @ map (\<lambda>v. (v, p @ [v])) (filter (\<lambda>v. v \<notin> seen) (remdups (neighbors g u))))
       (seen \<union> set (filter (\<lambda>v. v \<notin> seen) (remdups (neighbors g u))))"
  by pat_completeness auto
termination
proof (relation "measure (\<lambda>(g, q, seen). card (set (edge_ends g) - seen) + length q)")
  show "wf (measure (\<lambda>(g, q, seen). card (set (edge_ends g) - seen) + length q))" by simp
next
  fix g :: digraph and u :: string and p :: "string list"
    and rest :: "(string \<times> string list) list" and seen :: "string set"
  let ?new = "filter (\<lambda>v. v \<notin> seen) (remdups (neighbors g u))"
  have "card (set (edge_ends g) - (seen \<union> set ?new)) + length ?new =
      card (set (edge_ends g) - seen)"
    using neighbors_subset[of g u] by (intro card_unseen) auto
  then show "((g, rest @ map (\<lambda>v. (v, p @ [v])) ?new, seen \<union> set ?new), (g, (u, p) # rest, seen))
      \<in> measure (\<lambda>(g, q, seen). card (set (edge_ends g) - seen) + length q)"
    by simp
qed

declare bfs_paths.simps [simp del]

definition shortest_path :: "digraph \<Rightarrow> string \<Rightarrow> string \<Rightarrow> string list option" where
  "shortest_path g source target = map_of (bfs_paths g [(source, [source])] {source}) target"






text \<open>
  A walk from a to b in the undirected projection, as its list of nodes; and the
  property of a graph that every node carries attributes, which the builder establishes.
\<close>

definition walk :: "digraph \<Rightarrow> string \<Rightarrow> string list \<Rightarrow> string \<Rightarrow> bool" where
  "walk g a p b =
     (p \<noteq> [] \<and> hd p = a \<and> last p = b \<and> successively (\<lambda>u v. v \<in> set (neighbors g u)) p)"

definition nodes_have_data :: "digraph \<Rightarrow> bool" where
  "nodes_have_data g = list_all (\<lambda>p. snd p \<noteq> None) (node_tbl g)"

lemma walk_single: "walk g a [a] a"
  by (simp add: walk_def)

lemma walk_extend: "walk g a p u \<Longrightarrow> v \<in> set (neighbors g u) \<Longrightarrow> walk g a (p @ [v]) v"
  by (auto simp: walk_def successively_append_iff)

lemma successively_rtrancl:
  "successively R p \<Longrightarrow> p \<noteq> [] \<Longrightarrow> (hd p, last p) \<in> {(u, v). R u v}\<^sup>*"
proof (induction p)
  case Nil
  then show ?case by simp
next
  case (Cons x xs)
  show ?case
  proof (cases xs)
    case Nil
    then show ?thesis by simp
  next
    case (Cons y ys)
    have r: "R x y" and s: "successively R xs" using Cons.prems(1) Cons by simp_all
    have "(hd xs, last xs) \<in> {(u, v). R u v}\<^sup>*" using Cons.IH s Cons by simp
    then have "(y, last xs) \<in> {(u, v). R u v}\<^sup>*" using Cons by simp
    moreover have "(x, y) \<in> {(u, v). R u v}" using r by simp
    ultimately have "(x, last xs) \<in> {(u, v). R u v}\<^sup>*" by (rule converse_rtrancl_into_rtrancl[rotated])
    then show ?thesis using Cons by simp
  qed
qed

lemma walk_linked: "walk g a p b \<Longrightarrow> linked g a b"
  using successively_rtrancl[of "\<lambda>u v. v \<in> set (neighbors g u)" p]
  by (auto simp: walk_def linked_def adjacent_def)

lemma bfs_paths_sound:
  "list_all (\<lambda>e. walk g a (snd e) (fst e)) q \<Longrightarrow>
     list_all (\<lambda>e. walk g a (snd e) (fst e)) (bfs_paths g q seen)"
proof (induction g q seen rule: bfs_paths.induct)
  case (1 g seen)
  show ?case by (simp add: bfs_paths.simps)
next
  case (2 g u p rest seen)
  let ?new = "filter (\<lambda>v. v \<notin> seen) (remdups (neighbors g u))"
  have w: "walk g a p u" and r: "list_all (\<lambda>e. walk g a (snd e) (fst e)) rest"
    using "2.prems" by simp_all
  have "list_all (\<lambda>e. walk g a (snd e) (fst e)) (map (\<lambda>v. (v, p @ [v])) ?new)"
    using w by (auto simp: list_all_iff intro: walk_extend)
  then have "list_all (\<lambda>e. walk g a (snd e) (fst e)) (rest @ map (\<lambda>v. (v, p @ [v])) ?new)"
    using r by simp
  from "2.IH"[OF this] show ?case using w by (simp add: bfs_paths.simps)
qed

lemma bfs_paths_closed:
  "fst ` set q \<subseteq> fst ` set (bfs_paths g q seen) \<and>
   (\<forall>w v. w \<in> fst ` set (bfs_paths g q seen) \<longrightarrow> v \<in> set (neighbors g w) \<longrightarrow>
      v \<in> fst ` set (bfs_paths g q seen) \<or> v \<in> seen)"
proof (induction g q seen rule: bfs_paths.induct)
  case (1 g seen)
  show ?case by (simp add: bfs_paths.simps)
next
  case (2 g u p rest seen)
  let ?new = "filter (\<lambda>v. v \<notin> seen) (remdups (neighbors g u))"
  let ?q = "rest @ map (\<lambda>v. (v, p @ [v])) ?new"
  let ?rec = "bfs_paths g ?q (seen \<union> set ?new)"
  let ?O = "fst ` set ?rec"
  have out: "bfs_paths g ((u, p) # rest) seen = (u, p) # ?rec" by (simp add: bfs_paths.simps)
  have q: "fst ` set ?q \<subseteq> ?O" using "2.IH" by blast
  have cl: "\<And>w v. w \<in> ?O \<Longrightarrow> v \<in> set (neighbors g w) \<Longrightarrow> v \<in> ?O \<or> v \<in> seen \<union> set ?new"
    using "2.IH" by blast
  have new: "set ?new \<subseteq> ?O"
  proof
    fix v assume "v \<in> set ?new"
    then have "v \<in> fst ` set ?q" by force
    then show "v \<in> ?O" using q by blast
  qed
  have rest: "fst ` set rest \<subseteq> ?O"
  proof
    fix v assume "v \<in> fst ` set rest"
    then have "v \<in> fst ` set ?q" by force
    then show "v \<in> ?O" using q by blast
  qed
  have a: "fst ` set ((u, p) # rest) \<subseteq> insert u ?O" using rest by auto
  have b: "v \<in> insert u ?O \<or> v \<in> seen"
    if w: "w \<in> insert u ?O" and v: "v \<in> set (neighbors g w)" for w v
  proof (cases "w \<in> ?O")
    case True
    then show ?thesis using cl[OF True v] new by blast
  next
    case False
    then have "w = u" using w by blast
    then have "v \<in> seen \<or> v \<in> set ?new" using v by auto
    then show ?thesis using new by blast
  qed
  show ?case unfolding out using a b by auto
qed

lemma bfs_paths_complete:
  assumes "linked g a b"
  shows "b \<in> fst ` set (bfs_paths g [(a, [a])] {a})"
proof -
  let ?O = "fst ` set (bfs_paths g [(a, [a])] {a})"
  have a: "a \<in> ?O" using bfs_paths_closed[of "[(a, [a])]" g "{a}"] by auto
  have cl: "\<And>w v. w \<in> ?O \<Longrightarrow> v \<in> set (neighbors g w) \<Longrightarrow> v \<in> ?O"
    using bfs_paths_closed[of "[(a, [a])]" g "{a}"] a by blast
  have "(a, b) \<in> (adjacent g)\<^sup>*" using assms by (simp add: linked_def)
  then show ?thesis
  proof (induction rule: rtrancl_induct)
    case base
    show ?case by (rule a)
  next
    case (step y z)
    then show ?case using cl[of y z] by (simp add: adjacent_def)
  qed
qed

lemma shortest_path_None: "(shortest_path g a b = None) = (\<not> linked g a b)"
proof
  assume n: "shortest_path g a b = None"
  show "\<not> linked g a b"
  proof
    assume "linked g a b"
    then have "b \<in> fst ` set (bfs_paths g [(a, [a])] {a})" by (rule bfs_paths_complete)
    then show False using n by (simp add: shortest_path_def map_of_eq_None_iff)
  qed
next
  assume n: "\<not> linked g a b"
  show "shortest_path g a b = None"
  proof (cases "shortest_path g a b")
    case None
    then show ?thesis .
  next
    case (Some p)
    then have "(b, p) \<in> set (bfs_paths g [(a, [a])] {a})"
      unfolding shortest_path_def by (rule map_of_SomeD)
    moreover have "list_all (\<lambda>e. walk g a (snd e) (fst e)) (bfs_paths g [(a, [a])] {a})"
      by (rule bfs_paths_sound) (simp add: walk_single)
    ultimately have "walk g a p b" by (auto simp: list_all_iff)
    then show ?thesis using n walk_linked by blast
  qed
qed




lemma neighbors_are_nodes:
  "edges_closed g \<Longrightarrow> v \<in> set (neighbors g u) \<Longrightarrow> has_node g v"
  by (auto simp: edges_closed_def list_all_iff neighbors_def)





lemma nodes_have_data_add_concept_node:
  "nodes_have_data g \<Longrightarrow> nodes_have_data (add_concept_node g c)"
  unfolding nodes_have_data_def add_concept_node_def add_node_def to_dict_def
  by (simp add: list_all_update)

lemma nodes_have_data_update_concept:
  assumes "nodes_have_data g"
  shows "nodes_have_data (update_concept g c)"
proof -
  let ?g1 = "if has_node g (concept_id c)
             then remove_edges_from g (in_edges g (concept_id c) @ out_edges g (concept_id c))
             else g"
  have "nodes_have_data ?g1" using assms by (simp add: nodes_have_data_def remove_edges_from_def)
  then have 2: "nodes_have_data (add_concept_node ?g1 c)" by (rule nodes_have_data_add_concept_node)
  have "node_tbl (update_concept g c) = node_tbl (add_concept_node ?g1 c)"
    unfolding update_concept_def Let_def
    by (rule node_tbl_add_concept_relations) (simp add: has_node_add_concept_node)
  then show ?thesis using 2 by (simp add: nodes_have_data_def)
qed

lemma nodes_have_data_remove_concept:
  "nodes_have_data g \<Longrightarrow> nodes_have_data (remove_concept g cid)"
  by (auto simp: nodes_have_data_def remove_concept_def remove_node_def list_all_iff
      AList.delete_eq)



section \<open>Statistics of the builder (graph/builder.py)\<close>

text \<open>
  \<^verbatim>\<open>nx.density\<close> of a directed graph: 0 when there is no edge or at most one node, otherwise
  the number of edges over \<^verbatim>\<open>n * (n - 1)\<close>. The quotient is kept exact.
\<close>

definition density :: "digraph \<Rightarrow> rat" where
  "density g =
     (let n = number_of_nodes g; m = number_of_edges g
      in if m = 0 \<or> n \<le> 1 then 0 else of_nat m / of_nat (n * (n - 1)))"

text \<open>
  \<^verbatim>\<open>nx.is_weakly_connected\<close> raises \<^verbatim>\<open>NetworkXPointlessConcept\<close> on the graph with no node;
  otherwise it takes the first weakly connected component, the nodes reached from the
  first node along edges in either direction, and compares its size with the number of
  nodes.
\<close>

datatype nx_error = NetworkXPointlessConcept

definition weakly_connected_component :: "digraph \<Rightarrow> string \<Rightarrow> string list" where
  "weakly_connected_component g v = remdups (map fst (bfs_paths g [(v, [v])] {v}))"

definition is_weakly_connected :: "digraph \<Rightarrow> nx_error + bool" where
  "is_weakly_connected g =
     (case node_ids g of
        [] \<Rightarrow> Inl NetworkXPointlessConcept
      | v # _ \<Rightarrow> Inr (length (weakly_connected_component g v) = number_of_nodes g))"

record statistics =
  total_concepts :: nat
  total_relations :: nat
  stat_density :: rat
  is_connected :: bool

text \<open>
  \<^verbatim>\<open>KnowledgeGraphBuilder.get_statistics\<close>: the four entries of the dictionary are computed in
  order, and an exception of the last one leaves the function.
\<close>

definition get_statistics :: "digraph \<Rightarrow> nx_error + statistics" where
  "get_statistics g =
     (let n = number_of_nodes g; m = number_of_edges g; d = density g
      in case is_weakly_connected g of
           Inl e \<Rightarrow> Inl e
         | Inr c \<Rightarrow> Inr \<lparr>total_concepts = n, total_relations = m, stat_density = d,
                          is_connected = c\<rparr>)"

lemma neighbors_sym: "(v \<in> set (neighbors g u)) = (u \<in> set (neighbors g v))"
  by (auto simp: neighbors_def)

lemma linked_refl: "linked g a a"
  by (simp add: linked_def)

lemma linked_trans: "linked g a b \<Longrightarrow> linked g b c \<Longrightarrow> linked g a c"
  by (auto simp: linked_def)

lemma linked_sym: "linked g a b \<Longrightarrow> linked g b a"
proof -
  have "sym (adjacent g)" using neighbors_sym[of _ g] by (auto simp: sym_def adjacent_def)
  then have "sym ((adjacent g)\<^sup>*)" by (rule sym_rtrancl)
  then show "linked g a b \<Longrightarrow> linked g b a" by (auto simp: linked_def sym_def)
qed

lemma linked_has_node:
  assumes "edges_closed g" and "has_node g a" and "linked g a b"
  shows "has_node g b"
proof -
  have "(a, b) \<in> (adjacent g)\<^sup>*" using assms(3) by (simp add: linked_def)
  then show ?thesis
  proof (induction rule: rtrancl_induct)
    case base
    show ?case by (rule assms(2))
  next
    case (step y z)
    then have "z \<in> set (neighbors g y)" by (simp add: adjacent_def)
    then show ?case using assms(1) by (rule neighbors_are_nodes[rotated])
  qed
qed

lemma set_weakly_connected_component:
  "set (weakly_connected_component g v) = {b. linked g v b}"
proof -
  have "(b \<in> fst ` set (bfs_paths g [(v, [v])] {v})) = linked g v b" for b
    using shortest_path_None[of g v b]
    by (simp only: shortest_path_def map_of_eq_None_iff) blast
  then show ?thesis by (auto simp: weakly_connected_component_def)
qed

lemma is_weakly_connected_nonempty:
  assumes wf: "wf_graph g" and ne: "node_ids g = v # vs"
  shows "is_weakly_connected g =
           Inr (\<forall>a b. has_node g a \<longrightarrow> has_node g b \<longrightarrow> linked g a b)"
proof -
  let ?C = "set (weakly_connected_component g v)"
  let ?N = "set (node_ids g)"
  have v: "has_node g v" using ne by (simp add: has_node_def node_ids_def)
  have cl: "edges_closed g" using wf by (simp add: wf_graph_def)
  have sub: "?C \<subseteq> ?N"
    using linked_has_node[OF cl v]
    by (auto simp: set_weakly_connected_component has_node_def node_ids_def)
  have lc: "length (weakly_connected_component g v) = card ?C"
    using distinct_card[of "weakly_connected_component g v"]
    by (simp add: weakly_connected_component_def)
  have ln: "number_of_nodes g = card ?N"
    using wf distinct_card[of "map fst (node_tbl g)"]
    by (simp add: number_of_nodes_def node_ids_def wf_graph_def)
  have eq: "(card ?C = card ?N) = (?C = ?N)"
    using sub card_subset_eq[of ?N ?C] by auto
  have all: "(?C = ?N) = (\<forall>a b. has_node g a \<longrightarrow> has_node g b \<longrightarrow> linked g a b)"
  proof
    assume e: "?C = ?N"
    have 1: "linked g v b" if "has_node g b" for b
      using that e by (auto simp: set_weakly_connected_component has_node_def node_ids_def)
    show "\<forall>a b. has_node g a \<longrightarrow> has_node g b \<longrightarrow> linked g a b"
      using 1 linked_sym linked_trans by blast
  next
    assume "\<forall>a b. has_node g a \<longrightarrow> has_node g b \<longrightarrow> linked g a b"
    then have "?N \<subseteq> ?C"
      using v by (auto simp: set_weakly_connected_component has_node_def node_ids_def)
    then show "?C = ?N" using sub by blast
  qed
  show ?thesis using ne lc ln eq all by (simp add: is_weakly_connected_def)
qed

lemma get_statistics_nonempty:
  assumes "wf_graph g" and "node_tbl g \<noteq> []"
  shows "get_statistics g =
           Inr \<lparr>total_concepts = number_of_nodes g, total_relations = number_of_edges g,
                stat_density = density g,
                is_connected = (\<forall>a b. has_node g a \<longrightarrow> has_node g b \<longrightarrow> linked g a b)\<rparr>"
proof -
  obtain v vs where "node_ids g = v # vs"
    using assms(2) by (cases "node_tbl g") (auto simp: node_ids_def)
  then show ?thesis
    using is_weakly_connected_nonempty[OF assms(1)] by (simp add: get_statistics_def)
qed

text \<open>
  Claim C7. The statistics of the builder are claimed to return, for every graph and the
  empty one too, the node count, the edge count, the density and the weak-connectivity
  flag, and never to raise. On the graph of a new builder, and on the graph built from no
  concept, \<^verbatim>\<open>get_statistics\<close> raises \<^verbatim>\<open>NetworkXPointlessConcept\<close> instead of returning the
  dictionary.
\<close>

theorem get_statistics_raises_on_empty_graph:
  "number_of_nodes empty_graph = 0 \<and>
   get_statistics empty_graph = Inl NetworkXPointlessConcept \<and>
   get_statistics (build_graph []) = Inl NetworkXPointlessConcept"
  by (simp add: get_statistics_def is_weakly_connected_def node_ids_def empty_graph_def
      number_of_nodes_def build_graph_def build_graph_from_def)

end
